theory Spec2Isabelle
  imports Main
begin

section \<open>Strings\<close>

text \<open>
  A Go \<^verbatim>\<open>string\<close> is a sequence of bytes; it is modelled as an Isabelle \<^typ>\<open>string\<close>
  (a list of 8-bit characters). \<open>byte\<close> reads a character as its code, 0 to 255.
\<close>

definition byte :: "char \<Rightarrow> nat" where
  "byte c = of_char c"

section \<open>The regexp package, as far as the router uses it\<close>

text \<open>
  \<^verbatim>\<open>router.go\<close> calls \<^verbatim>\<open>regexp.MustCompile\<close>, \<^verbatim>\<open>FindString\<close>, \<^verbatim>\<open>FindStringIndex\<close> and
  \<^verbatim>\<open>ReplaceAllString\<close> of Go's standard library. The library is not part of the
  repository; this section models the part of its syntax and of its leftmost-first
  matching that the router's own patterns need, and says so when a pattern lies outside
  that part (\<open>OutsideFragment\<close>, \<open>Unmodelled\<close>) instead of guessing.

  Every pattern the router compiles starts with the flag group \<^verbatim>\<open>(?i)\<close>, so every
  literal and every class matches case-insensitively. Under Go's simple case folding the
  letters \<^verbatim>\<open>s\<close> and \<^verbatim>\<open>k\<close> also match U+017F (bytes C5 BF) and U+212A (bytes E2 84 AA);
  no other rune outside ASCII folds to an ASCII character.
\<close>

type_synonym charclass = "(char \<times> char) list"

text \<open>A single-rune item: a literal character, or a class of inclusive ranges.\<close>

datatype atom = Lit char | Cls charclass

datatype repeat_op = Star | Plus | Quest

datatype regexp =
    Atom atom
  | Repeat repeat_op bool atom
  | BeginText
  | EndText
  | EmptyMatch
  | Concat regexp regexp
  | Alternate regexp regexp
  | Capture regexp

datatype compile_error = SyntaxError | OutsideFragment

subsection \<open>Parsing\<close>

definition is_digit :: "char \<Rightarrow> bool" where
  "is_digit c = (48 \<le> byte c \<and> byte c \<le> 57)"

text \<open>
  A bracket expression, after its opening bracket. \<open>first\<close> is true before the first
  item, where a closing bracket stands for itself. A range whose upper end is below its
  lower end, and a class that is never closed, are syntax errors. Negation, escapes,
  named classes and bytes outside ASCII are outside the fragment.
\<close>

fun parseClass :: "string \<Rightarrow> charclass \<Rightarrow> bool \<Rightarrow> compile_error + (charclass \<times> string)" where
  "parseClass [] cls first = Inl SyntaxError"
| "parseClass (c # t) cls first =
     (if c = CHR '']'' \<and> \<not> first then Inr (cls, t)
      else if first \<and> c = CHR ''^'' then Inl OutsideFragment
      else if c = CHR 0x5C \<or> 128 \<le> byte c then Inl OutsideFragment
      else if c = CHR ''['' \<and> take 1 t = '':'' then Inl OutsideFragment
      else (case t of
              d # hi # t' \<Rightarrow>
                if d = CHR ''-'' \<and> hi \<noteq> CHR '']'' then
                  (if hi = CHR 0x5C \<or> 128 \<le> byte hi then Inl OutsideFragment
                   else if byte hi < byte c then Inl SyntaxError
                   else parseClass t' (cls @ [(c, hi)]) False)
                else parseClass t (cls @ [(c, c)]) False
            | _ \<Rightarrow> parseClass t (cls @ [(c, c)]) False))"

fun mk_concat :: "regexp list \<Rightarrow> regexp" where
  "mk_concat [] = EmptyMatch"
| "mk_concat [r] = r"
| "mk_concat (r # rs) = Concat r (mk_concat rs)"

fun mk_alternate :: "regexp list \<Rightarrow> regexp \<Rightarrow> regexp" where
  "mk_alternate [] r = r"
| "mk_alternate (a # as) r = Alternate a (mk_alternate as r)"

text \<open>
  One nesting level of the parser: the alternatives already closed by a vertical bar,
  and the items of the alternative being read.
\<close>

type_synonym frame = "regexp list \<times> regexp list"

definition close_frame :: "frame \<Rightarrow> regexp" where
  "close_frame f = mk_alternate (fst f) (mk_concat (snd f))"

definition push :: "regexp \<Rightarrow> frame \<Rightarrow> frame" where
  "push r f = (fst f, snd f @ [r])"

text \<open>
  A repetition operator applies to the last item read. With nothing before it in the
  current alternative the operator has no argument. Only single-rune items are repeated
  in this fragment.
\<close>

definition repeat :: "repeat_op \<Rightarrow> bool \<Rightarrow> frame \<Rightarrow> compile_error + frame" where
  "repeat op greedy f =
     (if snd f = [] then Inl SyntaxError
      else (case last (snd f) of
              Atom a \<Rightarrow> Inr (fst f, butlast (snd f) @ [Repeat op greedy a])
            | _ \<Rightarrow> Inl OutsideFragment))"

definition repeat_op_of :: "char \<Rightarrow> repeat_op" where
  "repeat_op_of c = (if c = CHR ''*'' then Star else if c = CHR ''+'' then Plus else Quest)"

text \<open>
  The parser's main loop, one character at a time, as \<^verbatim>\<open>regexp/syntax\<close> reads a pattern
  under its Perl flags: \<open>f\<close> is the open nesting level, \<open>stack\<close> the enclosing ones and
  \<open>lastRepeat\<close> tells that the previous token was a repetition operator (a second one in
  a row is an error).
\<close>

function parse :: "string \<Rightarrow> frame \<Rightarrow> frame list \<Rightarrow> bool \<Rightarrow> compile_error + regexp" where
  "parse [] f stack lastRepeat =
     (if stack = [] then Inr (close_frame f) else Inl SyntaxError)"
| "parse (c # t) f stack lastRepeat =
     (if 128 \<le> byte c then Inl OutsideFragment
      else if c = CHR ''('' then
        (if take 1 t = ''?'' then Inl OutsideFragment
         else parse t ([], []) (f # stack) False)
      else if c = CHR ''|'' then parse t (fst f @ [mk_concat (snd f)], []) stack False
      else if c = CHR '')'' then
        (case stack of
           [] \<Rightarrow> Inl SyntaxError
         | g # stack' \<Rightarrow> parse t (push (Capture (close_frame f)) g) stack' False)
      else if c = CHR ''^'' then parse t (push BeginText f) stack False
      else if c = CHR ''$'' then parse t (push EndText f) stack False
      else if c = CHR ''.'' \<or> c = CHR 0x5C then Inl OutsideFragment
      else if c = CHR ''['' then
        (case parseClass t [] True of
           Inl e \<Rightarrow> Inl e
         | Inr (cls, t') \<Rightarrow> parse t' (push (Atom (Cls cls)) f) stack False)
      else if c = CHR ''*'' \<or> c = CHR ''+'' \<or> c = CHR ''?'' then
        (let greedy = (take 1 t \<noteq> ''?'');
             after = (if greedy then t else drop 1 t)
         in if lastRepeat then Inl SyntaxError
            else (case repeat (repeat_op_of c) greedy f of
                    Inl e \<Rightarrow> Inl e
                  | Inr f' \<Rightarrow> parse after f' stack True))
      else if c = CHR ''{'' \<and> (case t of [] \<Rightarrow> False | d # _ \<Rightarrow> is_digit d) then
        Inl OutsideFragment
      else parse t (push (Atom (Lit c)) f) stack False)"
  by pat_completeness auto


lemma parseClass_rest:
  "parseClass s cls first = Inr (cls', t) \<Longrightarrow> length t < length s"
  by (induction s cls first rule: parseClass.induct)
     (auto split: if_splits list.splits)

termination parse
proof (relation "measure (\<lambda>(s, f, stack, lastRepeat). length s)", goal_cases)
  case 1
  show ?case by simp
next
  case (2 c t f stack lastRepeat)
  show ?case by simp
next
  case (3 c t f stack lastRepeat)
  show ?case by simp
next
  case (4 c t f stack lastRepeat g stack')
  show ?case by simp
next
  case (5 c t f stack lastRepeat)
  show ?case by simp
next
  case (6 c t f stack lastRepeat)
  show ?case by simp
next
  case (7 c t f stack lastRepeat x cls t')
  then have "length t' < length t"
    using parseClass_rest [of t "[]" True cls t'] by simp
  then show ?case by simp
next
  case (8 c t f stack lastRepeat greedy after f')
  have "length after \<le> length t"
    unfolding \<open>after = (if greedy then t else drop 1 t)\<close> by simp
  then show ?case by simp
next
  case (9 c t f stack lastRepeat)
  show ?case by simp
qed

text \<open>
  \<^verbatim>\<open>regexp.Compile\<close>: the pattern must start with the flag group \<^verbatim>\<open>(?i)\<close> that the router
  puts in front of every pattern. The library refuses patterns that nest too deeply
  (more than 1000 levels); a pattern of at most 1000 bytes never does, and longer ones
  are left outside the fragment.
\<close>

definition Compile :: "string \<Rightarrow> compile_error + regexp" where
  "Compile expr =
     (if 1000 < length expr \<or> take 4 expr \<noteq> ''(?i)'' then Inl OutsideFragment
      else parse (drop 4 expr) ([], []) [] False)"

subsection \<open>Matching\<close>

definition in_range :: "char \<times> char \<Rightarrow> nat \<Rightarrow> bool" where
  "in_range r n = (byte (fst r) \<le> n \<and> n \<le> byte (snd r))"

text \<open>
  Case folding of an ASCII rune \<open>n\<close>: the rune itself or, for a letter, its other case
  lies in one of the ranges.
\<close>

definition fold_in :: "charclass \<Rightarrow> nat \<Rightarrow> bool" where
  "fold_in cls n =
     list_ex (\<lambda>r. in_range r n
                 \<or> (65 \<le> n \<and> n \<le> 90 \<and> in_range r (n + 32))
                 \<or> (97 \<le> n \<and> n \<le> 122 \<and> in_range r (n - 32))) cls"

text \<open>
  The number of bytes of the rune at the head of \<open>s\<close> when the folded class holds it, and
  0 when it does not (or \<open>s\<close> is empty). U+017F folds to \<^verbatim>\<open>s\<close> (code 115) and U+212A to
  \<^verbatim>\<open>k\<close> (code 107).
\<close>

definition rune_width :: "charclass \<Rightarrow> string \<Rightarrow> nat" where
  "rune_width cls s =
     (case s of
        [] \<Rightarrow> 0
      | x # _ \<Rightarrow>
          if byte x < 128 then (if fold_in cls (byte x) then 1 else 0)
          else if take 2 s = [CHR 0xC5, CHR 0xBF] then (if fold_in cls 115 then 2 else 0)
          else if take 3 s = [CHR 0xE2, CHR 0x84, CHR 0xAA] then (if fold_in cls 107 then 3 else 0)
          else 0)"

fun atom_class :: "atom \<Rightarrow> charclass" where
  "atom_class (Lit c) = [(c, c)]"
| "atom_class (Cls cls) = cls"

text \<open>
  The ends of one, two, three ... successive runes of the class at the head of \<open>s\<close>,
  shortest first.
\<close>

function rep_ends :: "charclass \<Rightarrow> string \<Rightarrow> nat list" where
  "rep_ends cls s =
     (let w = rune_width cls s
      in if w = 0 then [] else w # map ((+) w) (rep_ends cls (drop w s)))"
  by pat_completeness auto
termination
proof (relation "measure (\<lambda>(cls, s). length s)")
  fix cls :: charclass and s :: string and w :: nat
  assume "w = rune_width cls s" and "w \<noteq> 0"
  then have "s \<noteq> []" and "0 < w"
    by (auto simp: rune_width_def)
  then show "((cls, drop w s), (cls, s)) \<in> measure (\<lambda>(cls, s). length s)"
    by simp
qed simp

declare rep_ends.simps [simp del]

text \<open>
  Leftmost-first matching. \<open>match_ends r at_start s\<close> lists, in order of preference, the
  lengths of the prefixes of \<open>s\<close> that \<open>r\<close> matches; \<open>at_start\<close> tells that \<open>s\<close> is the whole
  text (so that \<^verbatim>\<open>^\<close> matches here). A greedy repetition prefers more runes, a lazy one
  fewer; an alternation prefers its left branch. \<^verbatim>\<open>$\<close> matches at the end of the text
  only.
\<close>

fun match_ends :: "regexp \<Rightarrow> bool \<Rightarrow> string \<Rightarrow> nat list" where
  "match_ends (Atom a) at_start s =
     (let w = rune_width (atom_class a) s in if w = 0 then [] else [w])"
| "match_ends (Repeat Plus greedy a) at_start s =
     (let es = rep_ends (atom_class a) s in if greedy then rev es else es)"
| "match_ends (Repeat Star greedy a) at_start s =
     (let es = rep_ends (atom_class a) s in if greedy then rev es @ [0] else 0 # es)"
| "match_ends (Repeat Quest greedy a) at_start s =
     (let es = take 1 (rep_ends (atom_class a) s) in if greedy then es @ [0] else 0 # es)"
| "match_ends BeginText at_start s = (if at_start then [0] else [])"
| "match_ends EndText at_start s = (if s = [] then [0] else [])"
| "match_ends EmptyMatch at_start s = [0]"
| "match_ends (Concat r1 r2) at_start s =
     concat (map (\<lambda>n. map ((+) n) (match_ends r2 (at_start \<and> n = 0) (drop n s)))
                 (match_ends r1 at_start s))"
| "match_ends (Alternate r1 r2) at_start s = match_ends r1 at_start s @ match_ends r2 at_start s"
| "match_ends (Capture r) at_start s = match_ends r at_start s"

text \<open>
  The leftmost match searched from the head of \<open>s\<close>, which stands at offset \<open>pos\<close> of
  the text: its start and end offsets.
\<close>

fun search :: "regexp \<Rightarrow> string \<Rightarrow> nat \<Rightarrow> (nat \<times> nat) option" where
  "search re s pos =
     (case match_ends re (pos = 0) s of
        e # _ \<Rightarrow> Some (pos, pos + e)
      | [] \<Rightarrow> (case s of [] \<Rightarrow> None | _ # t \<Rightarrow> search re t (Suc pos)))"

declare search.simps [simp del]

definition FindStringIndex :: "regexp \<Rightarrow> string \<Rightarrow> (nat \<times> nat) option" where
  "FindStringIndex re s = search re s 0"

definition FindString :: "regexp \<Rightarrow> string \<Rightarrow> string" where
  "FindString re s =
     (case FindStringIndex re s of
        None \<Rightarrow> []
      | Some (a, b) \<Rightarrow> take (b - a) (drop a s))"

lemma take_eq_length: "take n s = xs \<Longrightarrow> length xs \<le> length s"
  by (metis length_take min.cobounded1)

lemma rune_width_le: "rune_width cls s \<le> length s"
proof (cases s)
  case Nil
  then show ?thesis by (simp add: rune_width_def)
next
  case (Cons x t)
  have a: "take 2 s = [CHR 0xC5, CHR 0xBF] \<Longrightarrow> 2 \<le> length s"
    using take_eq_length [of 2 s] by fastforce
  have b: "take 3 s = [CHR 0xE2, CHR 0x84, CHR 0xAA] \<Longrightarrow> 3 \<le> length s"
    using take_eq_length [of 3 s] by fastforce
  show ?thesis
    using a b Cons unfolding rune_width_def by (simp del: take_Suc_Cons take_Cons_numeral)
qed


lemma rep_ends_le: "e \<in> set (rep_ends cls s) \<Longrightarrow> e \<le> length s"
proof (induction cls s arbitrary: e rule: rep_ends.induct)
  case (1 cls s)
  let ?w = "rune_width cls s"
  from "1.prems" have w: "?w \<noteq> 0"
    by (subst (asm) rep_ends.simps) (simp add: Let_def split: if_splits)
  have wle: "?w \<le> length s" by (rule rune_width_le)
  from "1.prems" w consider "e = ?w" | e' where "e = ?w + e'" "e' \<in> set (rep_ends cls (drop ?w s))"
    by (subst (asm) rep_ends.simps) (auto simp: Let_def)
  then show ?case
  proof cases
    case 1
    then show ?thesis using wle by simp
  next
    case 2
    then have "e' \<le> length (drop ?w s)"
      using "1.IH" [OF refl w] by simp
    then show ?thesis using 2 wle by simp
  qed
qed

lemma match_ends_le: "e \<in> set (match_ends r b s) \<Longrightarrow> e \<le> length s"
proof (induction r b s arbitrary: e rule: match_ends.induct)
  case (1 a at_start s)
  then show ?case
    using rune_width_le [of "atom_class a" s] by (auto simp: Let_def split: if_splits)
next
  case (8 r1 r2 at_start s)
  from "8.prems" obtain n e' where
    n: "n \<in> set (match_ends r1 at_start s)" and
    e': "e' \<in> set (match_ends r2 (at_start \<and> n = 0) (drop n s))" and e: "e = n + e'"
    by auto
  have "n \<le> length s" using "8.IH"(1) n by simp
  moreover have "e' \<le> length (drop n s)" using "8.IH"(2) n e' by simp
  ultimately show ?case using e by simp
qed (auto simp: Let_def split: if_splits dest: rep_ends_le in_set_takeD)

text \<open>
  \<^verbatim>\<open>ReplaceAllString\<close>: every match, from left to right and without overlap, gives way to
  \<open>repl\<close>; the text between the matches is copied. A match of the empty string, and a
  replacement that holds a \<^verbatim>\<open>$\<close> (a template), are not modelled: the result is \<open>None\<close>.
\<close>

function replace_from :: "regexp \<Rightarrow> string \<Rightarrow> string \<Rightarrow> nat \<Rightarrow> string option" where
  "replace_from re repl s pos =
     (case match_ends re (pos = 0) s of
        [] \<Rightarrow> (case s of
                 [] \<Rightarrow> Some []
               | c # t \<Rightarrow> map_option ((#) c) (replace_from re repl t (Suc pos)))
      | e # _ \<Rightarrow>
          if e = 0 then None
          else map_option ((@) repl) (replace_from re repl (drop e s) (pos + e)))"
  by pat_completeness auto
termination
proof (relation "measure (\<lambda>(re, repl, s, pos). length s)", goal_cases)
  case 1
  show ?case by simp
next
  case (2 re repl s pos c t)
  then show ?case by simp
next
  case (3 re repl s pos e es)
  then have "e \<in> set (match_ends re (pos = 0) s)" by simp
  then have "e \<le> length s" by (rule match_ends_le)
  with \<open>e \<noteq> 0\<close> show ?case by simp
qed

declare replace_from.simps [simp del]

definition ReplaceAllString :: "regexp \<Rightarrow> string \<Rightarrow> string \<Rightarrow> string option" where
  "ReplaceAllString re src repl =
     (if CHR ''$'' \<in> set repl then None else replace_from re repl src 0)"

section \<open>The router (router.go)\<close>

text \<open>
  What can stop a call short of returning: a panic (\<^verbatim>\<open>regexp.MustCompile\<close> panics on a
  pattern that does not compile), the process exit of \<^verbatim>\<open>Log.FatalError\<close>, and a pattern
  or a call that the model of the regexp package above does not cover.
\<close>

datatype failure = Panic | Fatal | Unmodelled

definition MustCompile :: "string \<Rightarrow> failure + regexp" where
  "MustCompile expr =
     (case Compile expr of
        Inl SyntaxError \<Rightarrow> Inl Panic
      | Inl OutsideFragment \<Rightarrow> Inl Unmodelled
      | Inr re \<Rightarrow> Inr re)"

subsection \<open>Requests and responses\<close>

text \<open>The two fields of \<^verbatim>\<open>*http.Request\<close> the router reads: \<^verbatim>\<open>req.Method\<close> and \<^verbatim>\<open>req.URL.Path\<close>.\<close>

record Request =
  Method :: string
  Path :: string

text \<open>
  An \<^verbatim>\<open>http.ResponseWriter\<close> as a recorder of what a handler does to it: the header map
  under construction, whether the status line has gone out and with which code and
  which headers, and the bytes of the body written so far. \<^verbatim>\<open>WriteHeader\<close> counts once;
  the first \<^verbatim>\<open>Write\<close> without one sends status 200.
\<close>

record ResponseWriter =
  header :: "string \<rightharpoonup> string list"
  wroteHeader :: bool
  code :: nat
  sentHeader :: "string \<rightharpoonup> string list"
  body :: string

definition newResponseWriter :: ResponseWriter where
  "newResponseWriter =
     \<lparr>header = Map.empty, wroteHeader = False, code = 0, sentHeader = Map.empty, body = []\<rparr>"

definition Header_Set :: "string \<Rightarrow> string \<Rightarrow> ResponseWriter \<Rightarrow> ResponseWriter" where
  "Header_Set k v rw = rw\<lparr>header := (header rw)(k \<mapsto> [v])\<rparr>"

definition WriteHeader :: "nat \<Rightarrow> ResponseWriter \<Rightarrow> ResponseWriter" where
  "WriteHeader c rw =
     (if wroteHeader rw then rw
      else rw\<lparr>wroteHeader := True, code := c, sentHeader := header rw\<rparr>)"

definition StatusOK :: nat where
  "StatusOK = 200"

definition StatusNotFound :: nat where
  "StatusNotFound = 404"

definition Write :: "string \<Rightarrow> ResponseWriter \<Rightarrow> ResponseWriter" where
  "Write bs rw = (let rw' = WriteHeader StatusOK rw in rw'\<lparr>body := body rw' @ bs\<rparr>)"

text \<open>\<^verbatim>\<open>fmt.Fprintln\<close> of one string: the string and a newline, in one \<^verbatim>\<open>Write\<close>.\<close>

definition Fprintln :: "ResponseWriter \<Rightarrow> string \<Rightarrow> ResponseWriter" where
  "Fprintln rw s = Write (s @ [CHR 0x0A]) rw"

subsection \<open>The route table\<close>

type_synonym RequestHandler = "ResponseWriter \<Rightarrow> Request \<Rightarrow> ResponseWriter"

record RequestHandlerPackage =
  Handler :: RequestHandler
  IndexParams :: "int \<rightharpoonup> string"

type_synonym HttpRequestMethod = string

type_synonym RequestHandlerMap = "HttpRequestMethod \<rightharpoonup> (string \<rightharpoonup> RequestHandlerPackage)"

definition GET :: HttpRequestMethod where "GET = ''GET''"
definition HEAD :: HttpRequestMethod where "HEAD = ''HEAD''"
definition OPTIONS :: HttpRequestMethod where "OPTIONS = ''OPTIONS''"
definition TRACE :: HttpRequestMethod where "TRACE = ''TRACE''"
definition PUT :: HttpRequestMethod where "PUT = ''PUT''"
definition DELETE :: HttpRequestMethod where "DELETE = ''DELETE''"
definition POST :: HttpRequestMethod where "POST = ''POST''"
definition PATCH :: HttpRequestMethod where "PATCH = ''PATCH''"
definition CONNECT :: HttpRequestMethod where "CONNECT = ''CONNECT''"

text \<open>
  A router made by \<^verbatim>\<open>NewRouter\<close>: its outer map exists. (The zero \<^verbatim>\<open>Router\<close>, whose map is
  nil, is not a state of this model.)
\<close>

record Router =
  routes :: RequestHandlerMap

definition NewRouter :: Router where
  "NewRouter = \<lparr>routes = Map.empty\<rparr>"

definition RegisteredRoutes :: "Router \<Rightarrow> RequestHandlerMap" where
  "RegisteredRoutes r = routes r"

definition routeNotFoundHandler :: RequestHandler where
  "routeNotFoundHandler rw req =
     (let rw1 = Header_Set ''Content-Type'' ''text/plain'' rw;
          rw2 = WriteHeader StatusNotFound rw1
      in Fprintln rw2 ''404 - Page not found'')"

subsection \<open>Registration\<close>

definition store :: "Router \<Rightarrow> HttpRequestMethod \<Rightarrow> string \<Rightarrow> RequestHandlerPackage \<Rightarrow> Router" where
  "store r method key pkg =
     (let m = (case routes r method of None \<Rightarrow> Map.empty | Some m \<Rightarrow> m)
      in r\<lparr>routes := (routes r)(method \<mapsto> m(key \<mapsto> pkg))\<rparr>)"

definition RegisterRoute ::
  "Router \<Rightarrow> HttpRequestMethod \<Rightarrow> string \<Rightarrow> RequestHandler \<Rightarrow> failure + Router" where
  "RegisterRoute r method path handler =
     (case MustCompile ''(?i)({[a-z0-9-_]+})'' of
        Inl e \<Rightarrow> Inl e
      | Inr re \<Rightarrow>
          if FindStringIndex re path = None then
            Inr (store r method path \<lparr>Handler = handler, IndexParams = Map.empty\<rparr>)
          else
            (case ReplaceAllString re path ''([a-z0-9-_]+)'' of
               None \<Rightarrow> Inl Unmodelled
             | Some replaced \<Rightarrow>
                 let newPath = ''^'' @ replaced @ ''$''
                 in Inr (store r method newPath \<lparr>Handler = handler, IndexParams = Map.empty\<rparr>)))"

subsection \<open>Dispatch\<close>

text \<open>
  \<open>keysIter\<close> is the sequence of keys that \<^verbatim>\<open>maps.Keys\<close> yields; Go fixes no order for it.
\<close>

fun matchRoutePattern :: "string list \<Rightarrow> string \<Rightarrow> failure + (string \<times> bool)" where
  "matchRoutePattern [] path = Inr ([], False)"
| "matchRoutePattern (k # keysIter) path =
     (case MustCompile (''(?i)'' @ k) of
        Inl e \<Rightarrow> Inl e
      | Inr re \<Rightarrow>
          let record = FindString re path
          in if length record \<noteq> 0 then Inr (k, True)
             else matchRoutePattern keysIter path)"

text \<open>
  The second component of the result is the \<^verbatim>\<open>error\<close>; \<open>None\<close> is \<^verbatim>\<open>nil\<close>. The function
  takes the order in which the method's keys are iterated as \<open>keysIter\<close>. The matched key
  is looked up again, as in the source; a \<open>keysIter\<close> that names a key the map does not
  hold is no iteration of that map and is not modelled.
\<close>

definition findReqHandler ::
  "Router \<Rightarrow> string list \<Rightarrow> Request \<Rightarrow> failure + (RequestHandler \<times> string option)" where
  "findReqHandler r keysIter req =
     (case routes r (Method req) of
        None \<Rightarrow> Inr (routeNotFoundHandler, None)
      | Some m \<Rightarrow>
          (case m (Path req) of
             Some handlerPackage \<Rightarrow> Inr (Handler handlerPackage, None)
           | None \<Rightarrow>
               (case matchRoutePattern keysIter (Path req) of
                  Inl e \<Rightarrow> Inl e
                | Inr (path, matchFound) \<Rightarrow>
                    if matchFound then
                      (case m path of
                         Some pkg \<Rightarrow> Inr (Handler pkg, None)
                       | None \<Rightarrow> Inl Unmodelled)
                    else Inr (routeNotFoundHandler, None))))"

definition ServeHTTP ::
  "Router \<Rightarrow> string list \<Rightarrow> ResponseWriter \<Rightarrow> Request \<Rightarrow> failure + ResponseWriter" where
  "ServeHTTP r keysIter rw req =
     (case findReqHandler r keysIter req of
        Inl e \<Rightarrow> Inl e
      | Inr (handler, err) \<Rightarrow>
          if err \<noteq> None then Inl Fatal else Inr (handler rw req))"

text \<open>The keys of a method's map in some order: what \<^verbatim>\<open>maps.Keys\<close> can yield.\<close>

definition keys_of :: "Router \<Rightarrow> HttpRequestMethod \<Rightarrow> string list \<Rightarrow> bool" where
  "keys_of r method ks =
     (distinct ks \<and> set ks = (case routes r method of None \<Rightarrow> {} | Some m \<Rightarrow> dom m))"

section \<open>Sample handlers\<close>

text \<open>A handler that writes a fixed body, as the handlers of the repository's tests do.\<close>

definition respond :: "string \<Rightarrow> RequestHandler" where
  "respond s rw req = Write s rw"

definition package :: "RequestHandler \<Rightarrow> RequestHandlerPackage" where
  "package h = \<lparr>Handler = h, IndexParams = Map.empty\<rparr>"

section \<open>Dispatch: exact match, unknown method, errors\<close>

lemma findReqHandler_exact:
  "routes r (Method req) = Some m \<Longrightarrow> m (Path req) = Some pkg \<Longrightarrow>
   findReqHandler r keysIter req = Inr (Handler pkg, None)"
  by (simp add: findReqHandler_def)

lemma findReqHandler_no_method:
  "routes r (Method req) = None \<Longrightarrow>
   findReqHandler r keysIter req = Inr (routeNotFoundHandler, None)"
  by (simp add: findReqHandler_def)

lemma findReqHandler_err_nil:
  "findReqHandler r keysIter req = Inr (h, err) \<Longrightarrow> err = None"
  by (auto simp: findReqHandler_def split: option.splits sum.splits if_splits prod.splits)

lemma routeNotFoundHandler_fresh:
  "\<not> wroteHeader rw \<Longrightarrow>
   routeNotFoundHandler rw req =
     rw\<lparr>header := (header rw)(''Content-Type'' \<mapsto> [''text/plain'']),
        wroteHeader := True, code := 404,
        sentHeader := (header rw)(''Content-Type'' \<mapsto> [''text/plain'']),
        body := body rw @ ''404 - Page not found'' @ [CHR 0x0A]\<rparr>"
  by (simp add: routeNotFoundHandler_def Header_Set_def WriteHeader_def Fprintln_def
      Write_def StatusNotFound_def StatusOK_def Let_def)

section \<open>Claims on dispatch\<close>

text \<open>
  C2. If the request path is present verbatim as a key under the request's method,
  \<open>findReqHandler\<close> returns that entry's handler with a nil error, whatever the other
  keys are and in whatever order they would be iterated: the pattern fallback is not
  consulted, so a pattern that would also match the path cannot win.
\<close>

theorem exact_match_precedence:
  assumes "routes r (Method req) = Some m" and "m (Path req) = Some pkg"
  shows "findReqHandler r keysIter req = Inr (Handler pkg, None)"
  using assms by (rule findReqHandler_exact)

theorem exact_match_precedence_witness:
  "findReqHandler
     (store (store NewRouter GET ''/users/me'' (package (respond ''literal'')))
        GET ''^/users/([a-z0-9-_]+)$'' (package (respond ''pattern'')))
     [''^/users/([a-z0-9-_]+)$'', ''/users/me'']
     \<lparr>Method = GET, Path = ''/users/me''\<rparr>
   = Inr (respond ''literal'', None)
   \<and> matchRoutePattern [''^/users/([a-z0-9-_]+)$'', ''/users/me''] ''/users/me''
     = Inr (''^/users/([a-z0-9-_]+)$'', True)"
proof -
  let ?r = "store (store NewRouter GET ''/users/me'' (package (respond ''literal'')))
        GET ''^/users/([a-z0-9-_]+)$'' (package (respond ''pattern''))"
  let ?m = "[''/users/me'' \<mapsto> package (respond ''literal''),
             ''^/users/([a-z0-9-_]+)$'' \<mapsto> package (respond ''pattern'')]"
  let ?req = "\<lparr>Method = GET, Path = ''/users/me''\<rparr>"
  have 1: "routes ?r (Method ?req) = Some ?m"
    by (simp add: store_def NewRouter_def)
  have 2: "?m (Path ?req) = Some (package (respond ''literal''))"
    by simp
  have 3: "matchRoutePattern [''^/users/([a-z0-9-_]+)$'', ''/users/me''] ''/users/me''
     = Inr (''^/users/([a-z0-9-_]+)$'', True)"
    by code_simp
  show ?thesis
    using exact_match_precedence [OF 1 2] 3 by (simp add: package_def)
qed

text \<open>
  C8. A request whose method has no entry in the route table resolves to the not-found
  handler for every path; so does every request to a router with no routes at all; and a
  request to a known method whose path is no key and matches no key resolves to the very
  same handler.
\<close>

theorem unknown_method_not_found:
  "(routes r (Method req) = None \<longrightarrow>
      findReqHandler r keysIter req = Inr (routeNotFoundHandler, None))
   \<and> findReqHandler NewRouter keysIter req = Inr (routeNotFoundHandler, None)
   \<and> (\<forall>m k. routes r (Method req) = Some m \<and> m (Path req) = None
          \<and> matchRoutePattern keysIter (Path req) = Inr (k, False) \<longrightarrow>
        findReqHandler r keysIter req = Inr (routeNotFoundHandler, None))"
  by (simp add: findReqHandler_def NewRouter_def)

theorem unknown_method_not_found_witness:
  "findReqHandler (store NewRouter GET ''/test'' (package (respond ''found''))) [''/test'']
     \<lparr>Method = PATCH, Path = ''/test''\<rparr> = Inr (routeNotFoundHandler, None)
   \<and> findReqHandler (store NewRouter GET ''/test'' (package (respond ''found''))) [''/test'']
     \<lparr>Method = GET, Path = ''/posts''\<rparr> = Inr (routeNotFoundHandler, None)"
proof -
  let ?r = "store NewRouter GET ''/test'' (package (respond ''found''))"
  let ?m = "[''/test'' \<mapsto> package (respond ''found'')]"
  have 1: "routes ?r (Method \<lparr>Method = PATCH, Path = ''/test''\<rparr>) = None"
    by (simp add: store_def NewRouter_def GET_def PATCH_def)
  have 2: "routes ?r (Method \<lparr>Method = GET, Path = ''/posts''\<rparr>) = Some ?m
      \<and> ?m (Path \<lparr>Method = GET, Path = ''/posts''\<rparr>) = None"
    by (simp add: store_def NewRouter_def)
  have 3: "matchRoutePattern [''/test''] ''/posts'' = Inr ('''', False)"
    by code_simp
  show ?thesis
    using unknown_method_not_found [of ?r "\<lparr>Method = PATCH, Path = ''/test''\<rparr>" "[''/test'']"]
      unknown_method_not_found [of ?r "\<lparr>Method = GET, Path = ''/posts''\<rparr>" "[''/test'']"]
      1 2 3
    by simp
qed

lemma MustCompile_not_Fatal: "MustCompile expr \<noteq> Inl Fatal"
  by (simp add: MustCompile_def split: sum.splits compile_error.splits)

lemma matchRoutePattern_not_Fatal: "matchRoutePattern ks p \<noteq> Inl Fatal"
proof (induction ks)
  case Nil
  show ?case by simp
next
  case (Cons k ks)
  show ?case
  proof (cases "MustCompile (''(?i)'' @ k)")
    case (Inl e)
    then have "e \<noteq> Fatal" using MustCompile_not_Fatal [of "''(?i)'' @ k"] by auto
    with Inl show ?thesis by simp
  next
    case (Inr re)
    with Cons show ?thesis by (simp add: Let_def)
  qed
qed

lemma matchRoutePattern_found_mem:
  "matchRoutePattern ks p = Inr (k, True) \<Longrightarrow> k \<in> set ks"
proof (induction ks)
  case Nil
  then show ?case by simp
next
  case (Cons a ks)
  then show ?case
    by (auto simp: Let_def split: sum.splits if_splits)
qed

lemma matchRoutePattern_returns:
  "\<forall>k\<in>set ks. \<exists>re. MustCompile (''(?i)'' @ k) = Inr re \<Longrightarrow>
   \<exists>k b. matchRoutePattern ks p = Inr (k, b)"
proof (induction ks)
  case Nil
  have "matchRoutePattern [] p = Inr ([], False)" by simp
  then show ?case by blast
next
  case (Cons a ks)
  then obtain re where re: "MustCompile (''(?i)'' @ a) = Inr re" by auto
  from Cons obtain k b where kb: "matchRoutePattern ks p = Inr (k, b)" by auto
  show ?case
  proof (cases "length (FindString re p) \<noteq> 0")
    case True
    with re have "matchRoutePattern (a # ks) p = Inr (a, True)" by (simp add: Let_def)
    then show ?thesis by blast
  next
    case False
    with re kb have "matchRoutePattern (a # ks) p = Inr (k, b)" by (simp add: Let_def)
    then show ?thesis by blast
  qed
qed

lemma findReqHandler_not_Fatal: "findReqHandler r ks req \<noteq> Inl Fatal"
  using matchRoutePattern_not_Fatal [of ks "Path req"]
  by (auto simp: findReqHandler_def split: option.splits sum.splits prod.splits)

lemma findReqHandler_returns:
  assumes "\<forall>k\<in>set ks. \<exists>re. MustCompile (''(?i)'' @ k) = Inr re"
      and "keys_of r (Method req) ks"
  shows "\<exists>h. findReqHandler r ks req = Inr (h, None)"
proof (cases "routes r (Method req)")
  case None
  then show ?thesis by (simp add: findReqHandler_def)
next
  case (Some m)
  show ?thesis
  proof (cases "m (Path req)")
    case (Some pkg)
    with \<open>routes r (Method req) = Some m\<close> show ?thesis by (simp add: findReqHandler_def)
  next
    case None
    from assms(1) obtain k b where kb: "matchRoutePattern ks (Path req) = Inr (k, b)"
      using matchRoutePattern_returns by blast
    show ?thesis
    proof (cases b)
      case False
      with kb None \<open>routes r (Method req) = Some m\<close> show ?thesis
        by (simp add: findReqHandler_def)
    next
      case True
      with kb have "k \<in> set ks" using matchRoutePattern_found_mem [of ks "Path req" k] by simp
      with assms(2) \<open>routes r (Method req) = Some m\<close> have "k \<in> dom m"
        by (simp add: keys_of_def)
      then obtain pkg where "m k = Some pkg" by auto
      with kb True None \<open>routes r (Method req) = Some m\<close> show ?thesis
        by (simp add: findReqHandler_def)
    qed
  qed
qed

lemma findReqHandler_handler:
  "findReqHandler r ks req = Inr (h, err) \<Longrightarrow>
   h = routeNotFoundHandler
   \<or> (\<exists>m k pkg. routes r (Method req) = Some m \<and> m k = Some pkg \<and> h = Handler pkg)"
  by (auto simp: findReqHandler_def split: option.splits sum.splits prod.splits if_splits)

section \<open>The registration pattern\<close>

definition name_class :: charclass where
  "name_class =
     [(CHR ''a'', CHR ''z''), (CHR ''0'', CHR ''9''), (CHR ''-'', CHR ''-''), (CHR ''_'', CHR ''_'')]"

text \<open>What \<^verbatim>\<open>(?i)({[a-z0-9-_]+})\<close> parses to.\<close>

definition placeholder_regexp :: regexp where
  "placeholder_regexp =
     Capture (Concat (Atom (Lit CHR ''{''))
                     (Concat (Repeat Plus True (Cls name_class)) (Atom (Lit CHR ''}''))))"

lemma MustCompile_placeholder: "MustCompile ''(?i)({[a-z0-9-_]+})'' = Inr placeholder_regexp"
  by code_simp

lemma RegisterRoute_no_match:
  "FindStringIndex placeholder_regexp path = None \<Longrightarrow>
   RegisterRoute r method path h = Inr (store r method path (package h))"
  by (simp add: RegisterRoute_def MustCompile_placeholder package_def)

lemma matchRoutePattern_append:
  "matchRoutePattern pre p = Inr (k', False) \<Longrightarrow>
   matchRoutePattern (pre @ ks) p = matchRoutePattern ks p"
proof (induction pre)
  case Nil
  show ?case by simp
next
  case (Cons a pre)
  then show ?case
    by (auto simp: Let_def split: sum.splits if_splits)
qed

text \<open>
  C4. Whenever no route matches (the method is unknown, or the path is no key of the
  method and no key matches it), \<open>ServeHTTP\<close> runs the built-in not-found handler: on a
  response whose header is not yet written it sets \<^verbatim>\<open>Content-Type: text/plain\<close>, sends
  status 404 and writes exactly \<^verbatim>\<open>404 - Page not found\<close> and a newline. Every response
  \<open>ServeHTTP\<close> produces is either this one or the output of a registered handler: the
  router writes no other body.
\<close>

theorem not_found_response:
  "(\<not> wroteHeader rw \<and>
      (routes r (Method req) = None
       \<or> (\<exists>m k. routes r (Method req) = Some m \<and> m (Path req) = None
              \<and> matchRoutePattern keysIter (Path req) = Inr (k, False))) \<longrightarrow>
      ServeHTTP r keysIter rw req =
        Inr (rw\<lparr>header := (header rw)(''Content-Type'' \<mapsto> [''text/plain'']),
                wroteHeader := True, code := 404,
                sentHeader := (header rw)(''Content-Type'' \<mapsto> [''text/plain'']),
                body := body rw @ ''404 - Page not found'' @ [CHR 0x0A]\<rparr>))
   \<and> (\<forall>rw'. ServeHTTP r keysIter rw req = Inr rw' \<longrightarrow>
          rw' = routeNotFoundHandler rw req
          \<or> (\<exists>m k pkg. routes r (Method req) = Some m \<and> m k = Some pkg
                \<and> rw' = Handler pkg rw req))"
proof (intro conjI impI allI)
  assume a: "\<not> wroteHeader rw \<and>
      (routes r (Method req) = None
       \<or> (\<exists>m k. routes r (Method req) = Some m \<and> m (Path req) = None
              \<and> matchRoutePattern keysIter (Path req) = Inr (k, False)))"
  then have "findReqHandler r keysIter req = Inr (routeNotFoundHandler, None)"
    by (auto simp: findReqHandler_def)
  then have "ServeHTTP r keysIter rw req = Inr (routeNotFoundHandler rw req)"
    by (simp add: ServeHTTP_def)
  with a show "ServeHTTP r keysIter rw req =
        Inr (rw\<lparr>header := (header rw)(''Content-Type'' \<mapsto> [''text/plain'']),
                wroteHeader := True, code := 404,
                sentHeader := (header rw)(''Content-Type'' \<mapsto> [''text/plain'']),
                body := body rw @ ''404 - Page not found'' @ [CHR 0x0A]\<rparr>)"
    using routeNotFoundHandler_fresh [of rw req] by simp
next
  fix rw'
  assume s: "ServeHTTP r keysIter rw req = Inr rw'"
  then obtain h err where h: "findReqHandler r keysIter req = Inr (h, err)" and rw': "rw' = h rw req"
    by (auto simp: ServeHTTP_def split: sum.splits prod.splits if_splits)
  from findReqHandler_handler [OF h] rw'
  show "rw' = routeNotFoundHandler rw req
          \<or> (\<exists>m k pkg. routes r (Method req) = Some m \<and> m k = Some pkg
                \<and> rw' = Handler pkg rw req)"
    by auto
qed

theorem not_found_response_witness:
  "ServeHTTP NewRouter [] newResponseWriter \<lparr>Method = GET, Path = ''/anything''\<rparr> =
     Inr \<lparr>header = [''Content-Type'' \<mapsto> [''text/plain'']], wroteHeader = True, code = 404,
          sentHeader = [''Content-Type'' \<mapsto> [''text/plain'']],
          body = ''404 - Page not found'' @ [CHR 0x0A]\<rparr>
   \<and> ServeHTTP (store NewRouter GET ''/users'' (package (respond ''users''))) [''/users'']
       newResponseWriter \<lparr>Method = GET, Path = ''/posts''\<rparr> =
     Inr \<lparr>header = [''Content-Type'' \<mapsto> [''text/plain'']], wroteHeader = True, code = 404,
          sentHeader = [''Content-Type'' \<mapsto> [''text/plain'']],
          body = ''404 - Page not found'' @ [CHR 0x0A]\<rparr>"
proof -
  let ?r = "store NewRouter GET ''/users'' (package (respond ''users''))"
  have 1: "routes NewRouter (Method \<lparr>Method = GET, Path = ''/anything''\<rparr>) = None"
    by (simp add: NewRouter_def)
  have 2: "routes ?r (Method \<lparr>Method = GET, Path = ''/posts''\<rparr>)
             = Some [''/users'' \<mapsto> package (respond ''users'')]"
    by (simp add: store_def NewRouter_def)
  have 3: "matchRoutePattern [''/users''] ''/posts'' = Inr ('''', False)"
    by code_simp
  have 4: "\<not> wroteHeader newResponseWriter" "header newResponseWriter = Map.empty"
    "body newResponseWriter = []"
    by (simp_all add: newResponseWriter_def)
  show ?thesis
    using not_found_response [of newResponseWriter NewRouter "\<lparr>Method = GET, Path = ''/anything''\<rparr>" "[]"]
      not_found_response [of newResponseWriter ?r "\<lparr>Method = GET, Path = ''/posts''\<rparr>" "[''/users'']"]
      1 2 3 4
    by (simp add: newResponseWriter_def)
qed

text \<open>
  C9, as the claim states it, fails: \<open>findReqHandler\<close> does not always yield a handler.
  A path without placeholders is stored verbatim, also when it is no valid regular
  expression; the fallback then compiles it with \<^verbatim>\<open>regexp.MustCompile\<close>, which panics.
\<close>

theorem findReqHandler_total_counterexample:
  "RegisterRoute NewRouter GET ''/a('' (respond ''a'')
     = Inr (store NewRouter GET ''/a('' (package (respond ''a'')))
   \<and> keys_of (store NewRouter GET ''/a('' (package (respond ''a''))) GET [''/a('']
   \<and> findReqHandler (store NewRouter GET ''/a('' (package (respond ''a''))) [''/a('']
       \<lparr>Method = GET, Path = ''/b''\<rparr> = Inl Panic"
proof -
  have 1: "FindStringIndex placeholder_regexp ''/a('' = None"
    by code_simp
  have 2: "matchRoutePattern [''/a(''] ''/b'' = Inl Panic"
    by code_simp
  show ?thesis
    using RegisterRoute_no_match [OF 1] 2
    by (simp add: findReqHandler_def store_def NewRouter_def keys_of_def)
qed

text \<open>
  C9, amended. \<open>findReqHandler\<close> never returns a non-nil error: whenever it returns, the
  error is nil and \<open>ServeHTTP\<close> invokes exactly the handler returned; when it does not
  return, \<open>ServeHTTP\<close> stops with the same failure, which is never the fatal exit. So the
  fatal-error branch of \<open>ServeHTTP\<close> is unreachable. It does return a handler whenever
  every key iterated compiles. And when the path is no exact key and the iteration reaches
  a key that does not compile, no key before it matching the path, \<open>findReqHandler\<close>
  panics and \<open>ServeHTTP\<close> invokes no handler.
\<close>

theorem findReqHandler_error_nil:
  "(\<forall>h err. findReqHandler r keysIter req = Inr (h, err) \<longrightarrow>
       err = None \<and> ServeHTTP r keysIter rw req = Inr (h rw req))
   \<and> (\<forall>e. findReqHandler r keysIter req = Inl e \<longrightarrow>
       e \<noteq> Fatal \<and> ServeHTTP r keysIter rw req = Inl e)
   \<and> ServeHTTP r keysIter rw req \<noteq> Inl Fatal
   \<and> ((\<forall>k\<in>set keysIter. \<exists>re. MustCompile (''(?i)'' @ k) = Inr re)
        \<and> keys_of r (Method req) keysIter \<longrightarrow>
       (\<exists>h. findReqHandler r keysIter req = Inr (h, None)))
   \<and> (routes r (Method req) = Some m \<and> m (Path req) = None
        \<and> matchRoutePattern pre (Path req) = Inr (k', False)
        \<and> MustCompile (''(?i)'' @ k) = Inl Panic \<longrightarrow>
       findReqHandler r (pre @ k # post) req = Inl Panic
       \<and> ServeHTTP r (pre @ k # post) rw req = Inl Panic)"
proof -
  have 1: "err = None \<and> ServeHTTP r keysIter rw req = Inr (h rw req)"
    if a: "findReqHandler r keysIter req = Inr (h, err)" for h err
    using a findReqHandler_err_nil [OF a] by (simp add: ServeHTTP_def)
  have 2: "e \<noteq> Fatal \<and> ServeHTTP r keysIter rw req = Inl e"
    if a: "findReqHandler r keysIter req = Inl e" for e
    using a findReqHandler_not_Fatal [of r keysIter req] by (auto simp: ServeHTTP_def)
  have 3: "ServeHTTP r keysIter rw req \<noteq> Inl Fatal"
  proof (cases "findReqHandler r keysIter req")
    case (Inl e)
    then show ?thesis using 2 [OF Inl] by auto
  next
    case (Inr p)
    obtain h err where p: "p = (h, err)" by (cases p)
    with Inr show ?thesis using 1 [of h err] by simp
  qed
  have 4: "\<exists>h. findReqHandler r keysIter req = Inr (h, None)"
    if "(\<forall>k\<in>set keysIter. \<exists>re. MustCompile (''(?i)'' @ k) = Inr re)
        \<and> keys_of r (Method req) keysIter"
    using that findReqHandler_returns by blast
  have 5: "findReqHandler r (pre @ k # post) req = Inl Panic
       \<and> ServeHTTP r (pre @ k # post) rw req = Inl Panic"
    if a: "routes r (Method req) = Some m \<and> m (Path req) = None
        \<and> matchRoutePattern pre (Path req) = Inr (k', False)
        \<and> MustCompile (''(?i)'' @ k) = Inl Panic"
  proof -
    from a have "matchRoutePattern (pre @ k # post) (Path req) = matchRoutePattern (k # post) (Path req)"
      using matchRoutePattern_append by blast
    also from a have "\<dots> = Inl Panic" by simp
    finally have "findReqHandler r (pre @ k # post) req = Inl Panic"
      using a by (simp add: findReqHandler_def)
    then show ?thesis by (simp add: ServeHTTP_def)
  qed
  show ?thesis
    using 1 2 3 4 5 by blast
qed

theorem findReqHandler_error_nil_witness:
  "findReqHandler (store NewRouter GET ''^/users/([a-z0-9-_]+)$'' (package (respond ''user'')))
     [''^/users/([a-z0-9-_]+)$''] \<lparr>Method = GET, Path = ''/users/123''\<rparr>
     = Inr (respond ''user'', None)
   \<and> ServeHTTP (store NewRouter GET ''^/users/([a-z0-9-_]+)$'' (package (respond ''user'')))
     [''^/users/([a-z0-9-_]+)$''] newResponseWriter \<lparr>Method = GET, Path = ''/users/123''\<rparr>
     = Inr (respond ''user'' newResponseWriter \<lparr>Method = GET, Path = ''/users/123''\<rparr>)
   \<and> (\<exists>h. findReqHandler (store NewRouter GET ''^/users/([a-z0-9-_]+)$'' (package (respond ''user'')))
     [''^/users/([a-z0-9-_]+)$''] \<lparr>Method = GET, Path = ''/users/''\<rparr> = Inr (h, None))
   \<and> findReqHandler (store NewRouter GET ''/a('' (package (respond ''a''))) ([] @ ''/a('' # [])
        \<lparr>Method = GET, Path = ''/b''\<rparr> = Inl Panic
   \<and> ServeHTTP (store NewRouter GET ''/a('' (package (respond ''a''))) ([] @ ''/a('' # [])
        newResponseWriter \<lparr>Method = GET, Path = ''/b''\<rparr> = Inl Panic"
proof -
  let ?k = "''^/users/([a-z0-9-_]+)$''"
  let ?r = "store NewRouter GET ?k (package (respond ''user''))"
  let ?req = "\<lparr>Method = GET, Path = ''/users/123''\<rparr>"
  let ?req2 = "\<lparr>Method = GET, Path = ''/users/''\<rparr>"
  let ?ra = "store NewRouter GET ''/a('' (package (respond ''a''))"
  let ?reqb = "\<lparr>Method = GET, Path = ''/b''\<rparr>"
  let ?m = "[''/a('' \<mapsto> package (respond ''a'')]"
  have 1: "matchRoutePattern [?k] ''/users/123'' = Inr (?k, True)"
    by code_simp
  have 2: "findReqHandler ?r [?k] ?req = Inr (respond ''user'', None)"
    using 1 by (simp add: findReqHandler_def store_def NewRouter_def package_def)
  have "case MustCompile (''(?i)'' @ ?k) of Inr re \<Rightarrow> True | Inl e \<Rightarrow> False"
    by code_simp
  then have 3: "\<exists>re. MustCompile (''(?i)'' @ ?k) = Inr re"
    by (cases "MustCompile (''(?i)'' @ ?k)") auto
  have 4: "keys_of ?r (Method ?req2) [?k]"
    by (simp add: keys_of_def store_def NewRouter_def)
  have 5: "MustCompile (''(?i)'' @ ''/a('') = Inl Panic"
    by code_simp
  have 6: "routes ?ra (Method ?reqb) = Some ?m \<and> ?m (Path ?reqb) = None
      \<and> matchRoutePattern [] (Path ?reqb) = Inr ('''', False)"
    by (simp add: store_def NewRouter_def)
  show ?thesis
    using findReqHandler_error_nil [where r = ?r and keysIter = "[?k]" and req = ?req
        and rw = newResponseWriter]
      findReqHandler_error_nil [where r = ?r and keysIter = "[?k]" and req = ?req2]
      findReqHandler_error_nil [where r = ?ra and req = ?reqb and m = ?m and pre = "[]"
        and k' = "[]" and k = "''/a(''" and post = "[]" and rw = newResponseWriter]
      2 3 4 5 6
    by simp
qed

text \<open>
  C1 fails on the code. The fallback iterates every key of the method, literal keys
  included, and a literal key is compiled as it is, without anchors: after
  \<^verbatim>\<open>RegisterRoute(GET, "/users", h)\<close> the request \<^verbatim>\<open>GET /users/123\<close> finds \<^verbatim>\<open>/users\<close> inside the
  path and resolves to \<open>h\<close>, not to the not-found handler.
\<close>

theorem literal_key_matches_inside_path:
  "RegisterRoute NewRouter GET ''/users'' (respond ''users'')
     = Inr (store NewRouter GET ''/users'' (package (respond ''users'')))
   \<and> keys_of (store NewRouter GET ''/users'' (package (respond ''users''))) GET [''/users'']
   \<and> FindString (Concat (Atom (Lit CHR ''/'')) (Concat (Atom (Lit CHR ''u''))
        (Concat (Atom (Lit CHR ''s'')) (Concat (Atom (Lit CHR ''e''))
        (Concat (Atom (Lit CHR ''r'')) (Atom (Lit CHR ''s''))))))) ''/users/123'' = ''/users''
   \<and> findReqHandler (store NewRouter GET ''/users'' (package (respond ''users''))) [''/users'']
       \<lparr>Method = GET, Path = ''/users/123''\<rparr> = Inr (respond ''users'', None)"
proof -
  have 1: "FindStringIndex placeholder_regexp ''/users'' = None"
    by code_simp
  have 2: "matchRoutePattern [''/users''] ''/users/123'' = Inr (''/users'', True)"
    by code_simp
  have 3: "FindString (Concat (Atom (Lit CHR ''/'')) (Concat (Atom (Lit CHR ''u''))
        (Concat (Atom (Lit CHR ''s'')) (Concat (Atom (Lit CHR ''e''))
        (Concat (Atom (Lit CHR ''r'')) (Atom (Lit CHR ''s''))))))) ''/users/123'' = ''/users''"
    by code_simp
  show ?thesis
    using RegisterRoute_no_match [OF 1] 2 3
    by (simp add: findReqHandler_def store_def NewRouter_def keys_of_def package_def)
qed

text \<open>
  C10, as the claim states it, fails in its last part: a key that does not compile does
  not make every non-exact request under the method panic. The loop returns at the first
  key that matches, so a request that an earlier key of the iteration matches never
  reaches the bad key.
\<close>

theorem invalid_key_panics_counterexample:
  "MustCompile (''(?i)'' @ ''/a('') = Inl Panic
   \<and> keys_of (store (store NewRouter GET ''/a('' (package (respond ''a'')))
               GET ''^/b/([a-z0-9-_]+)$'' (package (respond ''b'')))
        GET [''^/b/([a-z0-9-_]+)$'', ''/a('']
   \<and> findReqHandler (store (store NewRouter GET ''/a('' (package (respond ''a'')))
               GET ''^/b/([a-z0-9-_]+)$'' (package (respond ''b'')))
        [''^/b/([a-z0-9-_]+)$'', ''/a(''] \<lparr>Method = GET, Path = ''/b/c''\<rparr>
       = Inr (respond ''b'', None)"
proof -
  have 1: "MustCompile (''(?i)'' @ ''/a('') = Inl Panic"
    by code_simp
  have 2: "matchRoutePattern [''^/b/([a-z0-9-_]+)$'', ''/a(''] ''/b/c''
      = Inr (''^/b/([a-z0-9-_]+)$'', True)"
    by code_simp
  have 3: "{''^/b/([a-z0-9-_]+)$'', ''/a(''} = {''/a('', ''^/b/([a-z0-9-_]+)$''}"
    by (rule insert_commute)
  show ?thesis
    using 1 2 3
    by (simp add: findReqHandler_def store_def NewRouter_def keys_of_def package_def)
qed

text \<open>
  C10, amended. Dispatch compiles each key it tries at request time, with \<^verbatim>\<open>(?i)\<close> in
  front. If every key iterated compiles, \<open>findReqHandler\<close> returns a handler. A path in
  which the registration pattern finds no placeholder is stored verbatim, valid regular
  expression or not. And a key that does not compile makes \<open>findReqHandler\<close> panic for
  every request under that method whose path is no exact key and is matched by no key
  iterated before the bad one; in particular for every such request when the bad key is
  iterated first.
\<close>

theorem invalid_key_panics:
  "((\<forall>k\<in>set keysIter. \<exists>re. MustCompile (''(?i)'' @ k) = Inr re)
      \<and> keys_of r (Method req) keysIter \<longrightarrow>
      (\<exists>h. findReqHandler r keysIter req = Inr (h, None)))
   \<and> (FindStringIndex placeholder_regexp path = None \<longrightarrow>
        RegisterRoute r verb path h = Inr (store r verb path (package h)))
   \<and> (routes r (Method req) = Some m \<and> m (Path req) = None
        \<and> matchRoutePattern pre (Path req) = Inr (k', False)
        \<and> MustCompile (''(?i)'' @ k) = Inl Panic \<longrightarrow>
        findReqHandler r (pre @ k # post) req = Inl Panic)"
proof -
  have 1: "\<exists>h. findReqHandler r keysIter req = Inr (h, None)"
    if "(\<forall>k\<in>set keysIter. \<exists>re. MustCompile (''(?i)'' @ k) = Inr re)
      \<and> keys_of r (Method req) keysIter"
    using that findReqHandler_returns by blast
  have 2: "RegisterRoute r verb path h = Inr (store r verb path (package h))"
    if "FindStringIndex placeholder_regexp path = None"
    using that by (rule RegisterRoute_no_match)
  have 3: "findReqHandler r (pre @ k # post) req = Inl Panic"
    if a: "routes r (Method req) = Some m \<and> m (Path req) = None
        \<and> matchRoutePattern pre (Path req) = Inr (k', False)
        \<and> MustCompile (''(?i)'' @ k) = Inl Panic"
  proof -
    from a have "matchRoutePattern (pre @ k # post) (Path req) = matchRoutePattern (k # post) (Path req)"
      using matchRoutePattern_append by blast
    also from a have "\<dots> = Inl Panic" by simp
    finally show ?thesis using a by (simp add: findReqHandler_def)
  qed
  show ?thesis using 1 2 3 by blast
qed

theorem invalid_key_panics_witness:
  "RegisterRoute NewRouter GET ''/a('' (respond ''a'')
     = Inr (store NewRouter GET ''/a('' (package (respond ''a'')))
   \<and> findReqHandler (store NewRouter GET ''/a('' (package (respond ''a''))) ([] @ ''/a('' # [])
        \<lparr>Method = GET, Path = ''/b''\<rparr> = Inl Panic
   \<and> (\<exists>h. findReqHandler (store NewRouter GET ''/ab'' (package (respond ''a''))) [''/ab'']
        \<lparr>Method = GET, Path = ''/b''\<rparr> = Inr (h, None))"
proof -
  let ?r = "store NewRouter GET ''/a('' (package (respond ''a''))"
  let ?r2 = "store NewRouter GET ''/ab'' (package (respond ''a''))"
  let ?req = "\<lparr>Method = GET, Path = ''/b''\<rparr>"
  let ?m = "[''/a('' \<mapsto> package (respond ''a'')]"
  have 1: "FindStringIndex placeholder_regexp ''/a('' = None"
    by code_simp
  have 2: "MustCompile (''(?i)'' @ ''/a('') = Inl Panic"
    by code_simp
  have 3: "routes ?r (Method ?req) = Some ?m \<and> ?m (Path ?req) = None
      \<and> matchRoutePattern [] (Path ?req) = Inr ('''', False)"
    by (simp add: store_def NewRouter_def)
  have "case MustCompile (''(?i)'' @ ''/ab'') of Inr re \<Rightarrow> True | Inl e \<Rightarrow> False"
    by code_simp
  then have 4: "\<exists>re. MustCompile (''(?i)'' @ ''/ab'') = Inr re"
    by (cases "MustCompile (''(?i)'' @ ''/ab'')") auto
  have 5: "keys_of ?r2 (Method ?req) [''/ab'']"
    by (simp add: keys_of_def store_def NewRouter_def)
  show ?thesis
    using invalid_key_panics [where keysIter = "[''/ab'']" and r = ?r2 and req = ?req]
      invalid_key_panics [where r = NewRouter and path = "''/a(''" and verb = GET
        and h = "respond ''a''"]
      invalid_key_panics [where r = ?r and req = ?req and m = ?m and pre = "[]"
        and k' = "[]" and k = "''/a(''" and post = "[]"]
      1 2 3 4 5
    by simp
qed

section \<open>Placeholders, read directly from the path\<close>

text \<open>
  The registration pattern \<^verbatim>\<open>(?i)({[a-z0-9-_]+})\<close> in words: an opening brace, one or
  more name runes, a closing brace. A name rune is an ASCII letter of either case, a
  digit, a hyphen or an underscore and, because of case folding, U+017F or U+212A.
  The definitions below scan the path for such spans without any regular expression;
  the theorems compare them with what \<open>RegisterRoute\<close> computes.
\<close>

definition is_name_char :: "char \<Rightarrow> bool" where
  "is_name_char c =
     ((97 \<le> byte c \<and> byte c \<le> 122) \<or> (65 \<le> byte c \<and> byte c \<le> 90)
      \<or> (48 \<le> byte c \<and> byte c \<le> 57) \<or> c = CHR ''-'' \<or> c = CHR ''_'')"

definition name_rune_width :: "string \<Rightarrow> nat" where
  "name_rune_width s =
     (case s of
        [] \<Rightarrow> 0
      | c # _ \<Rightarrow>
          if is_name_char c then 1
          else if take 2 s = [CHR 0xC5, CHR 0xBF] then 2
          else if take 3 s = [CHR 0xE2, CHR 0x84, CHR 0xAA] then 3
          else 0)"

text \<open>The length in bytes of the longest run of name runes at the head of \<open>s\<close>.\<close>

function name_len :: "string \<Rightarrow> nat" where
  "name_len s =
     (let w = name_rune_width s in if w = 0 then 0 else w + name_len (drop w s))"
  by pat_completeness auto
termination
proof (relation "measure length")
  fix s :: string and w :: nat
  assume "w = name_rune_width s" and "w \<noteq> 0"
  then have "s \<noteq> []" and "0 < w"
    by (auto simp: name_rune_width_def)
  then show "(drop w s, s) \<in> measure length"
    by simp
qed simp

declare name_len.simps [simp del]

text \<open>
  The length of the placeholder span \<^verbatim>\<open>{name}\<close> that starts at the head of \<open>s\<close>, and 0
  when none starts there.
\<close>

definition placeholder_len :: "string \<Rightarrow> nat" where
  "placeholder_len s =
     (case s of
        [] \<Rightarrow> 0
      | c # t \<Rightarrow>
          if c = CHR ''{'' \<and> name_len t \<noteq> 0 \<and> take 1 (drop (name_len t) t) = ''}''
          then name_len t + 2
          else 0)"

fun has_placeholder :: "string \<Rightarrow> bool" where
  "has_placeholder [] = False"
| "has_placeholder (c # t) = (placeholder_len (c # t) \<noteq> 0 \<or> has_placeholder t)"

function subst_placeholders :: "string \<Rightarrow> string" where
  "subst_placeholders [] = []"
| "subst_placeholders (c # t) =
     (let n = placeholder_len (c # t)
      in if n = 0 then c # subst_placeholders t
         else ''([a-z0-9-_]+)'' @ subst_placeholders (drop n (c # t)))"
  by pat_completeness auto
termination
proof (relation "measure length", goal_cases)
  case 1
  show ?case by simp
next
  case (2 c t n)
  show ?case by simp
next
  case (3 c t n)
  then show ?case by simp
qed

text \<open>The Route Key of a registered path.\<close>

definition route_key :: "string \<Rightarrow> string" where
  "route_key path =
     (if has_placeholder path then ''^'' @ subst_placeholders path @ ''$'' else path)"

lemma byte_eq_iff: "byte c = byte d \<longleftrightarrow> c = d"
  by (simp add: byte_def)

lemma fold_in_name_class:
  "fold_in name_class n \<longleftrightarrow>
     (97 \<le> n \<and> n \<le> 122) \<or> (65 \<le> n \<and> n \<le> 90) \<or> (48 \<le> n \<and> n \<le> 57) \<or> n = 45 \<or> n = 95"
proof -
  have "fold_in name_class n \<longleftrightarrow>
     ((97 \<le> n \<and> n \<le> 122) \<or> (65 \<le> n \<and> n \<le> 90 \<and> 97 \<le> n + 32 \<and> n + 32 \<le> 122)
        \<or> (97 \<le> n \<and> n \<le> 122 \<and> 97 \<le> n - 32 \<and> n - 32 \<le> 122))
     \<or> ((48 \<le> n \<and> n \<le> 57) \<or> (65 \<le> n \<and> n \<le> 90 \<and> 48 \<le> n + 32 \<and> n + 32 \<le> 57)
        \<or> (97 \<le> n \<and> n \<le> 122 \<and> 48 \<le> n - 32 \<and> n - 32 \<le> 57))
     \<or> ((45 \<le> n \<and> n \<le> 45) \<or> (65 \<le> n \<and> n \<le> 90 \<and> 45 \<le> n + 32 \<and> n + 32 \<le> 45)
        \<or> (97 \<le> n \<and> n \<le> 122 \<and> 45 \<le> n - 32 \<and> n - 32 \<le> 45))
     \<or> ((95 \<le> n \<and> n \<le> 95) \<or> (65 \<le> n \<and> n \<le> 90 \<and> 95 \<le> n + 32 \<and> n + 32 \<le> 95)
        \<or> (97 \<le> n \<and> n \<le> 122 \<and> 95 \<le> n - 32 \<and> n - 32 \<le> 95))"
    unfolding fold_in_def name_class_def in_range_def
    by (simp add: byte_def)
  also have "\<dots> \<longleftrightarrow> (97 \<le> n \<and> n \<le> 122) \<or> (65 \<le> n \<and> n \<le> 90) \<or> (48 \<le> n \<and> n \<le> 57) \<or> n = 45 \<or> n = 95"
    by presburger
  finally show ?thesis .
qed

lemma is_name_char_fold: "is_name_char c \<longleftrightarrow> byte c < 128 \<and> fold_in name_class (byte c)"
proof -
  have d: "c = CHR ''-'' \<longleftrightarrow> byte c = 45"
    using byte_eq_iff [of c "CHR ''-''"] by (simp add: byte_def)
  have u: "c = CHR ''_'' \<longleftrightarrow> byte c = 95"
    using byte_eq_iff [of c "CHR ''_''"] by (simp add: byte_def)
  show ?thesis
    unfolding is_name_char_def fold_in_name_class d u by arith
qed

lemma rune_width_name_class: "rune_width name_class s = name_rune_width s"
proof (cases s)
  case Nil
  then show ?thesis by (simp add: rune_width_def name_rune_width_def)
next
  case (Cons c t)
  have f: "fold_in name_class 115" "fold_in name_class 107"
    by (simp_all add: fold_in_name_class)
  show ?thesis
  proof (cases "byte c < 128")
    case True
    then have "c \<noteq> CHR 0xC5" "c \<noteq> CHR 0xE2"
      by (auto simp: byte_def)
    with True Cons show ?thesis
      by (simp add: rune_width_def name_rune_width_def is_name_char_fold)
  next
    case False
    then have "\<not> is_name_char c" by (simp add: is_name_char_fold)
    with False Cons f show ?thesis
      by (simp add: rune_width_def name_rune_width_def)
  qed
qed

lemma name_rune_width_le: "name_rune_width s \<le> length s"
  using rune_width_le [of name_class s] by (simp add: rune_width_name_class)

lemma name_rune_width_not_brace:
  "name_rune_width s \<noteq> 0 \<Longrightarrow> take 1 s \<noteq> ''}'' \<and> take 1 s \<noteq> ''{'' \<and> take 1 s \<noteq> ''/''"
  by (auto simp: name_rune_width_def is_name_char_def byte_def split: list.splits if_splits)

lemma rep_ends_Nil_iff: "rep_ends cls s = [] \<longleftrightarrow> rune_width cls s = 0"
  by (subst rep_ends.simps) (simp add: Let_def)

lemma rep_ends_unfold:
  "rune_width cls s \<noteq> 0 \<Longrightarrow>
   rep_ends cls s = rune_width cls s # map ((+) (rune_width cls s)) (rep_ends cls (drop (rune_width cls s) s))"
  by (subst rep_ends.simps) (simp add: Let_def)

lemma rep_ends_pos: "e \<in> set (rep_ends cls s) \<Longrightarrow> 0 < e"
proof (cases "rune_width cls s = 0")
  case True
  then have "rep_ends cls s = []" by (simp add: rep_ends_Nil_iff)
  moreover assume "e \<in> set (rep_ends cls s)"
  ultimately show ?thesis by simp
next
  case False
  assume "e \<in> set (rep_ends cls s)"
  with False show ?thesis by (auto simp: rep_ends_unfold)
qed

lemma rep_ends_distinct: "distinct (rep_ends cls s)"
proof (induction cls s rule: rep_ends.induct)
  case (1 cls s)
  show ?case
  proof (cases "rune_width cls s = 0")
    case True
    then have "rep_ends cls s = []" by (simp add: rep_ends_Nil_iff)
    then show ?thesis by simp
  next
    case False
    let ?w = "rune_width cls s"
    have d: "distinct (rep_ends cls (drop ?w s))"
      using "1.IH" [OF refl False] .
    have "?w \<notin> set (map ((+) ?w) (rep_ends cls (drop ?w s)))"
      using rep_ends_pos [of 0 cls "drop ?w s"] by auto
    moreover have "distinct (map ((+) ?w) (rep_ends cls (drop ?w s)))"
      using d by (simp add: distinct_map)
    ultimately show ?thesis
      by (simp add: rep_ends_unfold [OF False])
  qed
qed

text \<open>Every end but the last is followed by one more rune of the class.\<close>

lemma rep_ends_not_last:
  "e \<in> set (rep_ends cls s) \<Longrightarrow> e \<noteq> last (rep_ends cls s) \<Longrightarrow>
   rune_width cls (drop e s) \<noteq> 0"
proof (induction cls s arbitrary: e rule: rep_ends.induct)
  case (1 cls s)
  let ?w = "rune_width cls s"
  let ?t = "rep_ends cls (drop ?w s)"
  from "1.prems"(1) have w: "?w \<noteq> 0"
    using rep_ends_Nil_iff [of cls s] by auto
  have u: "rep_ends cls s = ?w # map ((+) ?w) ?t"
    by (rule rep_ends_unfold [OF w])
  show ?case
  proof (cases "?t = []")
    case True
    with u "1.prems" show ?thesis by simp
  next
    case False
    then have l: "last (rep_ends cls s) = ?w + last ?t"
      using u by (simp add: last_map)
    from "1.prems"(1) u consider "e = ?w" | e' where "e = ?w + e'" "e' \<in> set ?t"
      by auto
    then show ?thesis
    proof cases
      case 1
      with False show ?thesis by (simp add: rep_ends_Nil_iff)
    next
      case 2
      with l "1.prems"(2) have "e' \<noteq> last ?t" by simp
      with 2 have "rune_width cls (drop e' (drop ?w s)) \<noteq> 0"
        using "1.IH" [OF refl w] by simp
      with 2 show ?thesis by (simp add: add.commute)
    qed
  qed
qed

lemma name_len_rep_ends:
  "name_len s = (if rep_ends name_class s = [] then 0 else last (rep_ends name_class s))"
proof (induction s rule: name_len.induct)
  case (1 s)
  let ?w = "name_rune_width s"
  show ?case
  proof (cases "?w = 0")
    case True
    then have "name_len s = 0" by (subst name_len.simps) simp
    with True show ?thesis by (simp add: rep_ends_Nil_iff rune_width_name_class)
  next
    case False
    then have n: "name_len s = ?w + name_len (drop ?w s)"
      by (subst name_len.simps) (simp add: Let_def)
    have w: "rune_width name_class s \<noteq> 0" using False by (simp add: rune_width_name_class)
    have u: "rep_ends name_class s = ?w # map ((+) ?w) (rep_ends name_class (drop ?w s))"
      using rep_ends_unfold [OF w] by (simp add: rune_width_name_class)
    show ?thesis
      using "1.IH" [OF refl False] n u by (simp add: last_map)
  qed
qed

lemma concat_map_single:
  "distinct es \<Longrightarrow> L \<in> set es \<Longrightarrow> \<forall>e\<in>set es. e \<noteq> L \<longrightarrow> g e = [] \<Longrightarrow>
   concat (map g es) = g L"
proof (induction es)
  case Nil
  then show ?case by simp
next
  case (Cons a es)
  show ?case
  proof (cases "a = L")
    case True
    with Cons.prems have "\<forall>e\<in>set es. g e = []" by auto
    then have "concat (map g es) = []" by simp
    with True show ?thesis by simp
  next
    case False
    with Cons show ?thesis by simp
  qed
qed

text \<open>A literal that is no letter matches exactly its own byte.\<close>

definition no_letter :: "char \<Rightarrow> bool" where
  "no_letter c = (byte c < 65 \<or> (90 < byte c \<and> byte c < 97) \<or> (122 < byte c \<and> byte c < 128))"

lemma rune_width_no_letter:
  assumes "no_letter c"
  shows "rune_width [(c, c)] s = (if take 1 s = [c] then 1 else 0)"
proof (cases s)
  case Nil
  then show ?thesis by (simp add: rune_width_def)
next
  case (Cons x t)
  have f: "fold_in [(c, c)] n \<longleftrightarrow> n = byte c" for n
    using assms unfolding fold_in_def in_range_def no_letter_def by (simp; arith)
  show ?thesis
  proof (cases "byte x < 128")
    case True
    with Cons show ?thesis
      by (simp add: rune_width_def f byte_eq_iff)
  next
    case False
    with assms have "x \<noteq> c" by (auto simp: no_letter_def)
    moreover from assms have "byte c \<noteq> 115" "byte c \<noteq> 107" by (auto simp: no_letter_def)
    ultimately show ?thesis using False Cons
      by (simp add: rune_width_def f)
  qed
qed

lemma no_letter_braces: "no_letter CHR ''{''" "no_letter CHR ''}''" "no_letter CHR ''/''"
  by (simp_all add: no_letter_def byte_def)

lemma match_ends_Lit_no_letter:
  "no_letter c \<Longrightarrow> match_ends (Atom (Lit c)) b s = (if take 1 s = [c] then [1] else [])"
  by (simp add: rune_width_no_letter)

lemma match_ends_name_then_brace:
  "match_ends (Concat (Repeat Plus True (Cls name_class)) (Atom (Lit CHR ''}''))) b t =
     (if name_len t \<noteq> 0 \<and> take 1 (drop (name_len t) t) = ''}'' then [name_len t + 1] else [])"
proof -
  let ?es = "rep_ends name_class t"
  let ?g = "\<lambda>n. if take 1 (drop n t) = ''}'' then [n + 1] else []"
  have m: "match_ends (Concat (Repeat Plus True (Cls name_class)) (Atom (Lit CHR ''}''))) b t
      = concat (map ?g (rev ?es))"
  proof -
    have g: "map ((+) n) (match_ends (Atom (Lit CHR ''}'')) b' u)
        = (if take 1 u = ''}'' then [n + 1] else [])" for n b' u
      by (simp add: match_ends_Lit_no_letter [OF no_letter_braces(2)] del: match_ends.simps(1))
    show ?thesis
      by (simp add: g del: match_ends.simps(1))
  qed
  show ?thesis
  proof (cases "?es = []")
    case True
    then have "name_len t = 0" by (simp add: name_len_rep_ends)
    with True m show ?thesis by simp
  next
    case False
    then have L: "name_len t = last ?es" by (simp add: name_len_rep_ends)
    have "last ?es \<in> set ?es" using False by simp
    then have mem: "name_len t \<in> set (rev ?es)" using L by simp
    then have pos: "name_len t \<noteq> 0" using rep_ends_pos [of "name_len t" name_class t] by simp
    have other: "\<forall>e\<in>set (rev ?es). e \<noteq> name_len t \<longrightarrow> ?g e = []"
    proof (intro ballI impI)
      fix e
      assume "e \<in> set (rev ?es)" and "e \<noteq> name_len t"
      then have "rune_width name_class (drop e t) \<noteq> 0"
        using rep_ends_not_last [of e name_class t] L by simp
      then have "take 1 (drop e t) \<noteq> ''}''"
        using name_rune_width_not_brace [of "drop e t"] by (simp add: rune_width_name_class)
      then show "?g e = []" by simp
    qed
    have "concat (map ?g (rev ?es)) = ?g (name_len t)"
      using concat_map_single [of "rev ?es" "name_len t" ?g] rep_ends_distinct [of name_class t] mem other
      by simp
    with m pos show ?thesis by simp
  qed
qed

lemma match_ends_placeholder:
  "match_ends placeholder_regexp b s = (if placeholder_len s = 0 then [] else [placeholder_len s])"
proof (cases s)
  case Nil
  then show ?thesis
    by (simp add: placeholder_regexp_def placeholder_len_def rune_width_def)
next
  case (Cons c t)
  let ?R = "Concat (Repeat Plus True (Cls name_class)) (Atom (Lit CHR ''}''))"
  have "match_ends placeholder_regexp b s =
      concat (map (\<lambda>n. map ((+) n) (match_ends ?R (b \<and> n = 0) (drop n s)))
        (match_ends (Atom (Lit CHR ''{'')) b s))"
    by (simp add: placeholder_regexp_def del: match_ends.simps(1))
  also have "\<dots> = (if c = CHR ''{'' then map ((+) 1) (match_ends ?R False t) else [])"
    using Cons
    by (simp add: match_ends_Lit_no_letter [OF no_letter_braces(1)] del: match_ends.simps)
  also have "\<dots> = (if placeholder_len s = 0 then [] else [placeholder_len s])"
    using Cons
    by (simp add: match_ends_name_then_brace placeholder_len_def del: match_ends.simps)
  finally show ?thesis .
qed

lemma search_placeholder:
  "search placeholder_regexp s pos = None \<longleftrightarrow> \<not> has_placeholder s"
proof (induction s arbitrary: pos)
  case Nil
  show ?case
    by (subst search.simps) (simp add: match_ends_placeholder placeholder_len_def)
next
  case (Cons c t)
  show ?case
  proof (cases "placeholder_len (c # t) = 0")
    case True
    then have "search placeholder_regexp (c # t) pos = search placeholder_regexp t (Suc pos)"
      by (subst search.simps) (simp add: match_ends_placeholder)
    with True Cons show ?thesis by simp
  next
    case False
    then have "search placeholder_regexp (c # t) pos \<noteq> None"
      by (subst search.simps) (simp add: match_ends_placeholder)
    with False show ?thesis by simp
  qed
qed

lemma FindStringIndex_placeholder:
  "FindStringIndex placeholder_regexp path = None \<longleftrightarrow> \<not> has_placeholder path"
  by (simp add: FindStringIndex_def search_placeholder)

lemma replace_from_placeholder:
  "replace_from placeholder_regexp ''([a-z0-9-_]+)'' s pos = Some (subst_placeholders s)"
proof (induction s arbitrary: pos rule: subst_placeholders.induct)
  case 1
  show ?case
    by (subst replace_from.simps) (simp add: match_ends_placeholder placeholder_len_def)
next
  case (2 c t)
  let ?n = "placeholder_len (c # t)"
  show ?case
  proof (cases "?n = 0")
    case True
    then have "replace_from placeholder_regexp ''([a-z0-9-_]+)'' (c # t) pos
        = map_option ((#) c) (replace_from placeholder_regexp ''([a-z0-9-_]+)'' t (Suc pos))"
      by (subst replace_from.simps) (simp add: match_ends_placeholder)
    with True "2.IH"(1) [OF refl True, of "Suc pos"] show ?thesis
      by (simp add: Let_def)
  next
    case False
    then have "replace_from placeholder_regexp ''([a-z0-9-_]+)'' (c # t) pos
        = map_option ((@) ''([a-z0-9-_]+)'')
            (replace_from placeholder_regexp ''([a-z0-9-_]+)'' (drop ?n (c # t)) (pos + ?n))"
      by (subst replace_from.simps) (simp add: match_ends_placeholder)
    with False "2.IH"(2) [OF refl False, of "pos + ?n"] show ?thesis
      by (simp add: Let_def)
  qed
qed

lemma ReplaceAllString_placeholder:
  "ReplaceAllString placeholder_regexp path ''([a-z0-9-_]+)'' = Some (subst_placeholders path)"
  by (simp add: ReplaceAllString_def replace_from_placeholder)

lemma RegisterRoute_eq:
  "RegisterRoute r verb path h = Inr (store r verb (route_key path) (package h))"
  by (simp add: RegisterRoute_def MustCompile_placeholder FindStringIndex_placeholder
      ReplaceAllString_placeholder route_key_def package_def)

text \<open>
  C3. For every router, method, path and handler, \<open>RegisterRoute\<close> returns (it neither
  panics nor leaves the modelled fragment) and stores the handler under one key: the
  path itself when the path holds no placeholder span, and otherwise the path with each
  placeholder span, from left to right, replaced by \<^verbatim>\<open>([a-z0-9-_]+)\<close>, with \<^verbatim>\<open>^\<close> in front
  and \<^verbatim>\<open>$\<close> behind. The other keys of the method keep their entries.
\<close>

theorem RegisterRoute_stores_key:
  "\<exists>m'. RegisterRoute r verb path h = Inr (r\<lparr>routes := (routes r)(verb \<mapsto> m')\<rparr>)
     \<and> m' (if has_placeholder path then ''^'' @ subst_placeholders path @ ''$'' else path)
         = Some \<lparr>Handler = h, IndexParams = Map.empty\<rparr>
     \<and> (\<forall>k. k \<noteq> (if has_placeholder path then ''^'' @ subst_placeholders path @ ''$'' else path)
          \<longrightarrow> m' k = (case routes r verb of None \<Rightarrow> None | Some m \<Rightarrow> m k))"
proof -
  let ?key = "if has_placeholder path then ''^'' @ subst_placeholders path @ ''$'' else path"
  let ?m = "case routes r verb of None \<Rightarrow> Map.empty | Some m \<Rightarrow> m"
  let ?m' = "?m(?key \<mapsto> \<lparr>Handler = h, IndexParams = Map.empty\<rparr>)"
  have "RegisterRoute r verb path h = Inr (r\<lparr>routes := (routes r)(verb \<mapsto> ?m')\<rparr>)"
    by (simp add: RegisterRoute_eq route_key_def store_def package_def)
  moreover have "?m' ?key = Some \<lparr>Handler = h, IndexParams = Map.empty\<rparr>"
    by simp
  moreover have "\<forall>k. k \<noteq> ?key \<longrightarrow> ?m' k = (case routes r verb of None \<Rightarrow> None | Some m \<Rightarrow> m k)"
    by (simp split: option.splits)
  ultimately show ?thesis by blast
qed

theorem RegisterRoute_stores_key_witness:
  "(\<exists>m'. RegisterRoute NewRouter GET ''/posts/{postId}/comments/{commentId}'' (respond ''c'')
        = Inr (NewRouter\<lparr>routes := (routes NewRouter)(GET \<mapsto> m')\<rparr>)
      \<and> m' ''^/posts/([a-z0-9-_]+)/comments/([a-z0-9-_]+)$''
          = Some \<lparr>Handler = respond ''c'', IndexParams = Map.empty\<rparr>
      \<and> m' ''/posts/{postId}/comments/{commentId}'' = None)
   \<and> (\<exists>m'. RegisterRoute NewRouter GET ''/users'' (respond ''u'')
        = Inr (NewRouter\<lparr>routes := (routes NewRouter)(GET \<mapsto> m')\<rparr>)
      \<and> m' ''/users'' = Some \<lparr>Handler = respond ''u'', IndexParams = Map.empty\<rparr>)"
proof -
  let ?p = "''/posts/{postId}/comments/{commentId}''"
  let ?k = "''^/posts/([a-z0-9-_]+)/comments/([a-z0-9-_]+)$''"
  have k: "(if has_placeholder ?p then ''^'' @ subst_placeholders ?p @ ''$'' else ?p) = ?k"
    by code_simp
  have u: "(if has_placeholder ''/users'' then ''^'' @ subst_placeholders ''/users'' @ ''$''
            else ''/users'') = ''/users''"
    by code_simp
  have n: "routes NewRouter GET = None"
    by (simp add: NewRouter_def)
  have 1: "\<exists>m'. RegisterRoute NewRouter GET ?p (respond ''c'')
        = Inr (NewRouter\<lparr>routes := (routes NewRouter)(GET \<mapsto> m')\<rparr>)
      \<and> m' ?k = Some \<lparr>Handler = respond ''c'', IndexParams = Map.empty\<rparr>
      \<and> m' ?p = None"
    using RegisterRoute_stores_key [of NewRouter GET ?p "respond ''c''"]
    unfolding k n by auto
  have 2: "\<exists>m'. RegisterRoute NewRouter GET ''/users'' (respond ''u'')
        = Inr (NewRouter\<lparr>routes := (routes NewRouter)(GET \<mapsto> m')\<rparr>)
      \<and> m' ''/users'' = Some \<lparr>Handler = respond ''u'', IndexParams = Map.empty\<rparr>"
    using RegisterRoute_stores_key [of NewRouter GET "''/users''" "respond ''u''"]
    unfolding u by auto
  show ?thesis using 1 2 by blast
qed

text \<open>
  C5, as the claim states it, fails: detection is not purely syntactic on the braces.
  The registration pattern \<^verbatim>\<open>(?i)({[a-z0-9-_]+})\<close> demands a name of letters, digits,
  hyphens and underscores, so \<^verbatim>\<open>/files/{file.name}\<close> is stored as a literal key.
\<close>

theorem brace_span_stored_literally_counterexample:
  "RegisterRoute NewRouter GET ''/files/{file.name}'' (respond ''f'')
     = Inr (store NewRouter GET ''/files/{file.name}'' (package (respond ''f'')))
   \<and> RegisterRoute NewRouter GET ''/x/{}'' (respond ''f'')
     = Inr (store NewRouter GET ''/x/{}'' (package (respond ''f'')))"
proof -
  have 1: "route_key ''/files/{file.name}'' = ''/files/{file.name}''"
    by code_simp
  have 2: "route_key ''/x/{}'' = ''/x/{}''"
    by code_simp
  show ?thesis
    by (simp only: RegisterRoute_eq 1 2)
qed

text \<open>A name: a non-empty string made of name runes only.\<close>

definition is_name :: "string \<Rightarrow> bool" where
  "is_name n = (n \<noteq> [] \<and> name_len n = length n)"

lemma name_len_zero: "name_rune_width s = 0 \<Longrightarrow> name_len s = 0"
  by (subst name_len.simps) simp

lemma name_len_step:
  "name_rune_width s \<noteq> 0 \<Longrightarrow>
   name_len s = name_rune_width s + name_len (drop (name_rune_width s) s)"
  by (subst name_len.simps) (simp add: Let_def)

lemma name_len_le: "name_len s \<le> length s"
proof (induction s rule: name_len.induct)
  case (1 s)
  show ?case
  proof (cases "name_rune_width s = 0")
    case True
    then show ?thesis by (simp add: name_len_zero)
  next
    case False
    have "name_len (drop (name_rune_width s) s) \<le> length (drop (name_rune_width s) s)"
      using "1.IH" [OF refl False] .
    with False show ?thesis
      using name_rune_width_le [of s] by (simp add: name_len_step)
  qed
qed

lemma placeholder_len_le: "placeholder_len s \<le> length s"
proof (cases s)
  case Nil
  then show ?thesis by (simp add: placeholder_len_def)
next
  case (Cons c t)
  show ?thesis
  proof (cases "placeholder_len s = 0")
    case True
    then show ?thesis by simp
  next
    case False
    with Cons have n: "take 1 (drop (name_len t) t) = ''}''" and p: "placeholder_len s = name_len t + 2"
      by (auto simp: placeholder_len_def split: if_splits)
    from n have "drop (name_len t) t \<noteq> []" by auto
    then have "name_len t < length t" by simp
    with p Cons show ?thesis by simp
  qed
qed

lemma name_rune_width_append:
  "name_rune_width a \<noteq> 0 \<Longrightarrow> name_rune_width (a @ b) = name_rune_width a"
proof (cases a)
  case Nil
  assume "name_rune_width a \<noteq> 0"
  with Nil show ?thesis by (simp add: name_rune_width_def)
next
  case (Cons c t)
  assume nz: "name_rune_width a \<noteq> 0"
  have t2: "take 2 a = [x, y] \<Longrightarrow> take 2 (a @ b) = [x, y]" for x y
    using take_eq_length [of 2 a "[x, y]"] by simp
  have t3: "take 3 a = [x, y, z] \<Longrightarrow> take 3 (a @ b) = [x, y, z]" for x y z
    using take_eq_length [of 3 a "[x, y, z]"] by simp
  have t2': "take 2 (a @ b) = [x, y] \<Longrightarrow> 2 \<le> length a \<Longrightarrow> take 2 a = [x, y]" for x y
    by simp
  show ?thesis
  proof (cases "is_name_char c")
    case True
    with Cons show ?thesis by (simp add: name_rune_width_def)
  next
    case False
    show ?thesis
    proof (cases "take 2 a = [CHR 0xC5, CHR 0xBF]")
      case True
      with False Cons t2 [OF True] show ?thesis
        by (simp add: name_rune_width_def del: take_Suc_Cons take_Cons_numeral)
    next
      case n2: False
      with nz False Cons have 3: "take 3 a = [CHR 0xE2, CHR 0x84, CHR 0xAA]"
        by (simp add: name_rune_width_def split: if_splits del: take_Suc_Cons take_Cons_numeral)
      then have "c = CHR 0xE2" using Cons by simp
      then have "take 2 (a @ b) \<noteq> [CHR 0xC5, CHR 0xBF]" using Cons by simp
      with False Cons 3 n2 t3 [OF 3] show ?thesis
        by (simp add: name_rune_width_def del: take_Suc_Cons take_Cons_numeral)
    qed
  qed
qed

lemma name_len_append:
  "name_len a = length a \<Longrightarrow> name_len (a @ b) = length a + name_len b"
proof (induction a rule: name_len.induct)
  case (1 a)
  let ?w = "name_rune_width a"
  show ?case
  proof (cases "?w = 0")
    case True
    with "1.prems" have "a = []" by (simp add: name_len_zero)
    then show ?thesis by simp
  next
    case False
    have wl: "?w \<le> length a" by (rule name_rune_width_le)
    from False "1.prems" have "name_len (drop ?w a) = length (drop ?w a)"
      using wl by (simp add: name_len_step)
    then have ih: "name_len (drop ?w a @ b) = length (drop ?w a) + name_len b"
      using "1.IH" [OF refl False] by simp
    have w': "name_rune_width (a @ b) = ?w"
      using False by (rule name_rune_width_append)
    then have "name_len (a @ b) = ?w + name_len (drop ?w (a @ b))"
      using False name_len_step [of "a @ b"] by simp
    also have "drop ?w (a @ b) = drop ?w a @ b" using wl by simp
    finally show ?thesis using ih wl by simp
  qed
qed

lemma name_rune_width_take:
  "name_rune_width s \<noteq> 0 \<Longrightarrow> name_rune_width (take (name_rune_width s) s) = name_rune_width s"
proof (cases s)
  case Nil
  assume "name_rune_width s \<noteq> 0"
  with Nil show ?thesis by (simp add: name_rune_width_def)
next
  case (Cons c t)
  assume nz: "name_rune_width s \<noteq> 0"
  have n5: "\<not> is_name_char (CHR 0xC5)" "\<not> is_name_char (CHR 0xE2)"
    by (simp_all add: is_name_char_def byte_def)
  show ?thesis
  proof (cases "is_name_char c")
    case True
    with Cons show ?thesis by (simp add: name_rune_width_def)
  next
    case False
    show ?thesis
    proof (cases "take 2 s = [CHR 0xC5, CHR 0xBF]")
      case True
      with False Cons have "name_rune_width s = 2"
        by (simp add: name_rune_width_def del: take_Suc_Cons take_Cons_numeral)
      with True n5 show ?thesis by (simp add: name_rune_width_def)
    next
      case n2: False
      with nz False Cons have 3: "take 3 s = [CHR 0xE2, CHR 0x84, CHR 0xAA]"
        by (simp add: name_rune_width_def split: if_splits del: take_Suc_Cons take_Cons_numeral)
      with False n2 Cons have "name_rune_width s = 3"
        by (simp add: name_rune_width_def del: take_Suc_Cons take_Cons_numeral)
      with 3 n5 show ?thesis by (simp add: name_rune_width_def)
    qed
  qed
qed

lemma name_len_take: "name_len (take (name_len t) t) = name_len t"
proof (induction t rule: name_len.induct)
  case (1 t)
  let ?w = "name_rune_width t"
  show ?case
  proof (cases "?w = 0")
    case True
    then have "name_len t = 0" by (rule name_len_zero)
    moreover have "name_len [] = 0" by (simp add: name_len_zero name_rune_width_def)
    ultimately show ?thesis by simp
  next
    case False
    let ?L = "name_len (drop ?w t)"
    have wl: "?w \<le> length t" by (rule name_rune_width_le)
    have s: "name_len t = ?w + ?L" using False by (rule name_len_step)
    have tk: "take (?w + ?L) t = take ?w t @ take ?L (drop ?w t)"
      by (rule take_add)
    have "name_rune_width (take ?w t) = ?w" using False by (rule name_rune_width_take)
    then have w': "name_rune_width (take ?w t @ take ?L (drop ?w t)) = ?w"
      using False name_rune_width_append [of "take ?w t"] by simp
    have "name_len (take ?w t @ take ?L (drop ?w t))
        = ?w + name_len (drop ?w (take ?w t @ take ?L (drop ?w t)))"
      using False w' name_len_step [of "take ?w t @ take ?L (drop ?w t)"] by simp
    also have "drop ?w (take ?w t @ take ?L (drop ?w t)) = take ?L (drop ?w t)"
      using wl by simp
    also have "name_len (take ?L (drop ?w t)) = ?L"
      using "1.IH" [OF refl False] .
    finally show ?thesis using s tk by simp
  qed
qed

lemma placeholder_len_span:
  assumes "is_name n"
  shows "placeholder_len (''{'' @ n @ ''}'' @ post) = length n + 2"
proof -
  have "name_rune_width (''}'' @ post) = 0"
    by (simp add: name_rune_width_def is_name_char_def byte_def)
  then have "name_len (''}'' @ post) = 0" by (rule name_len_zero)
  with assms have "name_len (n @ ''}'' @ post) = length n"
    using name_len_append [of n "''}'' @ post"] by (simp add: is_name_def)
  with assms show ?thesis
    by (simp add: placeholder_len_def is_name_def)
qed

lemma placeholder_len_name:
  assumes "placeholder_len u \<noteq> 0"
  shows "\<exists>name post. u = ''{'' @ name @ ''}'' @ post \<and> is_name name"
proof -
  from assms obtain t where u: "u = CHR ''{'' # t" and nz: "name_len t \<noteq> 0"
    and br: "take 1 (drop (name_len t) t) = ''}''"
    by (auto simp: placeholder_len_def split: list.splits if_splits)
  let ?name = "take (name_len t) t"
  from br obtain post where post: "drop (name_len t) t = CHR ''}'' # post"
    by (cases "drop (name_len t) t") auto
  have "t = ?name @ drop (name_len t) t" by simp
  with post have t: "t = ?name @ ''}'' @ post" by simp
  have "length ?name = name_len t" using name_len_le [of t] by simp
  then have "is_name ?name" using nz name_len_take [of t] by (auto simp: is_name_def)
  with u t show ?thesis by auto
qed

lemma has_placeholder_iff:
  "has_placeholder s \<longleftrightarrow> (\<exists>pre u. s = pre @ u \<and> placeholder_len u \<noteq> 0)"
proof (induction s)
  case Nil
  show ?case by (simp add: placeholder_len_def)
next
  case (Cons c t)
  show ?case
  proof
    assume "has_placeholder (c # t)"
    then consider "placeholder_len (c # t) \<noteq> 0" | "has_placeholder t" by auto
    then show "\<exists>pre u. c # t = pre @ u \<and> placeholder_len u \<noteq> 0"
    proof cases
      case 1
      then have "c # t = [] @ (c # t) \<and> placeholder_len (c # t) \<noteq> 0" by simp
      then show ?thesis by blast
    next
      case 2
      with Cons obtain pre u where "t = pre @ u" "placeholder_len u \<noteq> 0" by auto
      then have "c # t = (c # pre) @ u \<and> placeholder_len u \<noteq> 0" by simp
      then show ?thesis by blast
    qed
  next
    assume "\<exists>pre u. c # t = pre @ u \<and> placeholder_len u \<noteq> 0"
    then obtain pre u where pu: "c # t = pre @ u" and nz: "placeholder_len u \<noteq> 0" by auto
    show "has_placeholder (c # t)"
    proof (cases pre)
      case Nil
      with pu have u: "u = c # t" by simp
      from nz have "placeholder_len (c # t) \<noteq> 0" unfolding u .
      then show ?thesis by simp
    next
      case (Cons a pre')
      with pu have "t = pre' @ u" by simp
      with nz Cons.IH have "has_placeholder t" by auto
      then show ?thesis by simp
    qed
  qed
qed

lemma has_placeholder_name:
  "has_placeholder s \<longleftrightarrow>
     (\<exists>pre name post. s = pre @ ''{'' @ name @ ''}'' @ post \<and> is_name name)"
proof
  assume "has_placeholder s"
  then obtain pre u where "s = pre @ u" and "placeholder_len u \<noteq> 0"
    by (auto simp: has_placeholder_iff)
  then show "\<exists>pre name post. s = pre @ ''{'' @ name @ ''}'' @ post \<and> is_name name"
    using placeholder_len_name [of u] by blast
next
  assume "\<exists>pre name post. s = pre @ ''{'' @ name @ ''}'' @ post \<and> is_name name"
  then obtain pre name post where s: "s = pre @ ''{'' @ name @ ''}'' @ post" and n: "is_name name"
    by blast
  have "placeholder_len (''{'' @ name @ ''}'' @ post) \<noteq> 0"
    using placeholder_len_span [OF n, of post] by simp
  with s show "has_placeholder s"
    unfolding has_placeholder_iff by blast
qed

lemma is_name_chars:
  "n \<noteq> [] \<Longrightarrow> \<forall>c\<in>set n. is_name_char c \<Longrightarrow> is_name n"
proof -
  have "\<forall>c\<in>set n. is_name_char c \<Longrightarrow> name_len n = length n"
  proof (induction n)
    case Nil
    show ?case by (simp add: name_len_zero name_rune_width_def)
  next
    case (Cons c t)
    then have w: "name_rune_width (c # t) = 1" by (simp add: name_rune_width_def)
    then have "name_len (c # t) = 1 + name_len t"
      using name_len_step [of "c # t"] by simp
    with Cons show ?case by simp
  qed
  then show "n \<noteq> [] \<Longrightarrow> \<forall>c\<in>set n. is_name_char c \<Longrightarrow> is_name n"
    by (simp add: is_name_def)
qed

text \<open>
  C5, amended. Detection applies the charset at registration. A path holds a
  placeholder exactly when it holds a span \<^verbatim>\<open>{name}\<close> whose name is a non-empty run of name
  runes (letters of either case, digits, hyphen, underscore); a name of such characters
  always qualifies. A path with such a span is stored under the anchored pattern key;
  every other path, whatever brace-delimited spans it holds, is stored under itself.
\<close>

theorem placeholder_detection_charset:
  "(has_placeholder path \<longleftrightarrow>
      (\<exists>pre name post. path = pre @ ''{'' @ name @ ''}'' @ post \<and> is_name name))
   \<and> (name \<noteq> [] \<and> (\<forall>c\<in>set name. is_name_char c) \<longrightarrow> is_name name)
   \<and> (has_placeholder path \<longrightarrow>
        RegisterRoute r verb path h
          = Inr (store r verb (''^'' @ subst_placeholders path @ ''$'') (package h)))
   \<and> (\<not> has_placeholder path \<longrightarrow>
        RegisterRoute r verb path h = Inr (store r verb path (package h)))"
proof -
  have 1: "has_placeholder path \<longleftrightarrow>
      (\<exists>pre name post. path = pre @ ''{'' @ name @ ''}'' @ post \<and> is_name name)"
    by (rule has_placeholder_name)
  have 2: "name \<noteq> [] \<and> (\<forall>c\<in>set name. is_name_char c) \<longrightarrow> is_name name"
    using is_name_chars [of name] by blast
  have 3: "has_placeholder path \<longrightarrow>
        RegisterRoute r verb path h
          = Inr (store r verb (''^'' @ subst_placeholders path @ ''$'') (package h))"
  proof
    assume "has_placeholder path"
    then have "route_key path = ''^'' @ subst_placeholders path @ ''$''"
      unfolding route_key_def by (rule if_P)
    then show "RegisterRoute r verb path h
          = Inr (store r verb (''^'' @ subst_placeholders path @ ''$'') (package h))"
      by (simp only: RegisterRoute_eq)
  qed
  have 4: "\<not> has_placeholder path \<longrightarrow>
        RegisterRoute r verb path h = Inr (store r verb path (package h))"
  proof
    assume "\<not> has_placeholder path"
    then have "route_key path = path"
      unfolding route_key_def by (rule if_not_P)
    then show "RegisterRoute r verb path h = Inr (store r verb path (package h))"
      by (simp only: RegisterRoute_eq)
  qed
  show ?thesis
    using 1 2 3 4 by (intro conjI)
qed

theorem placeholder_detection_charset_witness:
  "is_name ''id''
   \<and> RegisterRoute NewRouter GET ''/users/{id}'' (respond ''u'')
       = Inr (store NewRouter GET ''^/users/([a-z0-9-_]+)$'' (package (respond ''u'')))
   \<and> \<not> has_placeholder ''/files/{file.name}''
   \<and> RegisterRoute NewRouter GET ''/files/{file.name}'' (respond ''f'')
       = Inr (store NewRouter GET ''/files/{file.name}'' (package (respond ''f'')))"
proof -
  have 1: "''id'' \<noteq> [] \<and> (\<forall>c\<in>set ''id''. is_name_char c)"
    by (simp add: is_name_char_def byte_def)
  have 2: "''/users/{id}'' = ''/users/'' @ ''{'' @ ''id'' @ ''}'' @ []"
    by simp
  have 3: "subst_placeholders ''/users/{id}'' = ''/users/([a-z0-9-_]+)''"
    by code_simp
  have 4: "\<not> has_placeholder ''/files/{file.name}''"
    by code_simp
  have n: "is_name ''id''"
    using placeholder_detection_charset [where name = "''id''"] 1 by blast
  then have hp: "has_placeholder ''/users/{id}''"
    using placeholder_detection_charset [where path = "''/users/{id}''"] 2 by blast
  have a: "RegisterRoute NewRouter GET ''/users/{id}'' (respond ''u'')
       = Inr (store NewRouter GET (''^'' @ subst_placeholders ''/users/{id}'' @ ''$'')
           (package (respond ''u'')))"
    using hp placeholder_detection_charset [where path = "''/users/{id}''" and r = NewRouter
        and verb = GET and h = "respond ''u''"]
    by blast
  have b: "RegisterRoute NewRouter GET ''/files/{file.name}'' (respond ''f'')
       = Inr (store NewRouter GET ''/files/{file.name}'' (package (respond ''f'')))"
    using 4 placeholder_detection_charset [where path = "''/files/{file.name}''" and r = NewRouter
        and verb = GET and h = "respond ''f''"]
    by blast
  have c: "''^'' @ ''/users/([a-z0-9-_]+)'' @ ''$'' = ''^/users/([a-z0-9-_]+)$''"
    by simp
  show ?thesis
    using n a [unfolded 3 c] 4 b by (intro conjI)
qed

section \<open>Pattern routes with one placeholder per segment\<close>












definition join :: "string list \<Rightarrow> string" where
  "join vals = concat (map (\<lambda>v. ''/'' @ v) vals)"




lemma join_simps [simp]:
  "join [] = []"
  "join (v # vs) = CHR ''/'' # v @ join vs"
  by (simp_all add: join_def)








































section \<open>The scanning registration (src/unnamed/part_001)\<close>

text \<open>
  The repository holds a second version of \<^verbatim>\<open>RegisterRoute\<close>, which finds the placeholders
  by scanning the path for braces and fills the parameter map of the entry (the field is
  named \<^verbatim>\<open>ParamList\<close> there and \<^verbatim>\<open>IndexParams\<close> in \<^verbatim>\<open>router.go\<close>). The loop ranges over the
  runes of the path; bytes and runes coincide on ASCII paths, and other paths are left
  to the \<open>Unmodelled\<close> result.
\<close>

record paramSearch =
  start :: nat
  end' :: nat
  pos :: int
  name :: string

record scan_state =
  paramList :: "paramSearch list"
  pathDepth :: int
  found :: bool
  foundAt :: nat
  paramNameBuilder :: string

definition scan_init :: scan_state where
  "scan_init =
     \<lparr>paramList = [], pathDepth = - 1, found = False, foundAt = 0, paramNameBuilder = []\<rparr>"

text \<open>The body of the first loop, for the character \<open>c\<close> at byte offset \<open>i\<close>.\<close>

definition scan_step :: "nat \<Rightarrow> char \<Rightarrow> scan_state \<Rightarrow> scan_state" where
  "scan_step i c st =
     (let st1 =
        (if c = CHR ''/'' then st\<lparr>pathDepth := pathDepth st + 1\<rparr>
         else if c = CHR ''{'' then st\<lparr>found := True, foundAt := i\<rparr>
         else if c = CHR ''}'' then
           st\<lparr>found := False,
              paramList := paramList st @
                [\<lparr>start = foundAt st, end' = i, pos = pathDepth st, name = paramNameBuilder st\<rparr>],
              paramNameBuilder := []\<rparr>
         else st)
      in if found st1 \<and> c \<noteq> CHR ''{''
         then st1\<lparr>paramNameBuilder := paramNameBuilder st1 @ [c]\<rparr>
         else st1)"

fun scan :: "string \<Rightarrow> nat \<Rightarrow> scan_state \<Rightarrow> scan_state" where
  "scan [] i st = st"
| "scan (c # t) i st = scan t (Suc i) (scan_step i c st)"

text \<open>
  The second loop: the text between two placeholders, the capture group, and the entry
  of the map. The slice \<^verbatim>\<open>path[lastPos:param.start]\<close> panics when its bounds are out of
  order.
\<close>

fun build ::
  "string \<Rightarrow> paramSearch list \<Rightarrow> nat \<Rightarrow> string \<Rightarrow> (int \<rightharpoonup> string)
     \<Rightarrow> failure + (nat \<times> string \<times> (int \<rightharpoonup> string))" where
  "build path [] lastPos pathBuilder reqParamList = Inr (lastPos, pathBuilder, reqParamList)"
| "build path (param # params) lastPos pathBuilder reqParamList =
     (if start param < lastPos \<or> length path < start param then Inl Panic
      else build path params (end' param + 1)
             (pathBuilder @ take (start param - lastPos) (drop lastPos path) @ ''([a-z0-9-_]+)'')
             (reqParamList(pos param \<mapsto> name param)))"

definition RegisterRoute_scan ::
  "Router \<Rightarrow> HttpRequestMethod \<Rightarrow> string \<Rightarrow> RequestHandler \<Rightarrow> failure + Router" where
  "RegisterRoute_scan r method path handler =
     (if list_ex (\<lambda>c. 128 \<le> byte c) path then Inl Unmodelled
      else
        (case build path (paramList (scan path 0 scan_init)) 0 [] Map.empty of
           Inl e \<Rightarrow> Inl e
         | Inr (lastPos, pathBuilder, reqParamList) \<Rightarrow>
             let newPath = ''^'' @ (pathBuilder @ drop lastPos path) @ ''$''
             in Inr (store r method newPath \<lparr>Handler = handler, IndexParams = reqParamList\<rparr>)))"

lemma scan_users_id:
  "paramList (scan ''/users/{id}'' 0 scan_init)
     = [\<lparr>start = 7, end' = 10, pos = 1, name = ''id''\<rparr>]"
  by (simp add: scan_init_def scan_step_def)

lemma RegisterRoute_scan_users_id:
  "RegisterRoute_scan r verb ''/users/{id}'' h
     = Inr (store r verb ''^/users/([a-z0-9-_]+)$'' \<lparr>Handler = h, IndexParams = [1 \<mapsto> ''id'']\<rparr>)"
proof -
  have "\<not> list_ex (\<lambda>c. 128 \<le> byte c) ''/users/{id}''"
    by (simp add: byte_def)
  then show ?thesis
    unfolding RegisterRoute_scan_def scan_users_id by simp
qed

text \<open>
  C6 fails on \<^verbatim>\<open>router.go\<close>. Its \<^verbatim>\<open>RegisterRoute\<close> builds the entry from the handler alone and
  never writes the field \<^verbatim>\<open>IndexParams\<close>: the parameter map of every stored entry is empty,
  for \<^verbatim>\<open>/users/{id}\<close> as for every other path. The scanning version of the same function
  does record the map the claim describes, \<open>1 \<mapsto> id\<close> for \<^verbatim>\<open>/users/{id}\<close>.
\<close>

theorem parameter_map_left_empty:
  "(\<exists>key. RegisterRoute r verb path h
       = Inr (store r verb key \<lparr>Handler = h, IndexParams = Map.empty\<rparr>))
   \<and> RegisterRoute NewRouter GET ''/users/{id}'' h
       = Inr (store NewRouter GET ''^/users/([a-z0-9-_]+)$'' \<lparr>Handler = h, IndexParams = Map.empty\<rparr>)
   \<and> RegisterRoute_scan NewRouter GET ''/users/{id}'' h
       = Inr (store NewRouter GET ''^/users/([a-z0-9-_]+)$'' \<lparr>Handler = h, IndexParams = [1 \<mapsto> ''id'']\<rparr>)"
proof -
  have k: "route_key ''/users/{id}'' = ''^/users/([a-z0-9-_]+)$''"
    by code_simp
  have 1: "\<exists>key. RegisterRoute r verb path h
       = Inr (store r verb key \<lparr>Handler = h, IndexParams = Map.empty\<rparr>)"
    using RegisterRoute_eq [of r verb path h] by (auto simp: package_def)
  have 2: "RegisterRoute NewRouter GET ''/users/{id}'' h
       = Inr (store NewRouter GET ''^/users/([a-z0-9-_]+)$'' \<lparr>Handler = h, IndexParams = Map.empty\<rparr>)"
    using RegisterRoute_eq [of NewRouter GET "''/users/{id}''" h] k by (simp add: package_def)
  show ?thesis
    using 1 2 RegisterRoute_scan_users_id [of NewRouter GET h] by simp
qed

theorem parameter_map_left_empty_witness:
  "(\<exists>key. RegisterRoute NewRouter GET ''/posts/{postId}/comments/{commentId}'' (respond ''c'')
       = Inr (store NewRouter GET key \<lparr>Handler = respond ''c'', IndexParams = Map.empty\<rparr>))
   \<and> RegisterRoute NewRouter GET ''/users/{id}'' (respond ''c'')
       = Inr (store NewRouter GET ''^/users/([a-z0-9-_]+)$''
               \<lparr>Handler = respond ''c'', IndexParams = Map.empty\<rparr>)
   \<and> RegisterRoute_scan NewRouter GET ''/users/{id}'' (respond ''c'')
       = Inr (store NewRouter GET ''^/users/([a-z0-9-_]+)$''
               \<lparr>Handler = respond ''c'', IndexParams = [1 \<mapsto> ''id'']\<rparr>)"
  using parameter_map_left_empty
    [of NewRouter GET "''/posts/{postId}/comments/{commentId}''" "respond ''c''"]
  by simp

end
